theory Spec2Isabelle
  imports Complex_Main
begin

section \<open>The Poincare ball of pymanopt\<close>

text \<open>
  A shallow embedding of \<^verbatim>\<open>src/pymanopt/manifolds/hyperbolic.py\<close> (class
  \<^verbatim>\<open>PoincareBall\<close>).

  Numbers. The entries of a numpy array are IEEE doubles. They are modelled by the
  type \<open>fl\<close>: a finite value carries a real, and the three special values
  \<open>+inf\<close>, \<open>-inf\<close> and \<open>nan\<close> are kept apart, with the rules numpy follows for them
  (\<open>0/0 = nan\<close>, \<open>x/0 = \<plusminus>inf\<close>, \<open>inf - inf = nan\<close>, \<open>0 * inf = nan\<close>, \<open>nan\<close>
  absorbing). The sign of zero is not modelled. The methods are given in two layers.
  In the first, the operations \<open>+\<close>, \<open>-\<close>, \<open>*\<close>, \<open>/\<close> on finite values are exact: it
  is the formula the source writes, and it decides a property on which rounding has
  no say (which branch is taken, whether a division by zero occurs, an identity whose
  every step is exact on doubles). In the second (suffix \<open>64\<close>) every operation is
  followed by the rounding of binary64, to nearest with ties to even, with subnormal
  numbers and overflow to infinity: it is what the hardware computes, and it decides
  a property that depends on the last bit.

  Arrays. A point of the product of \<open>n\<close> balls of dimension \<open>k\<close> is a numpy array
  of shape \<open>(k, n)\<close>, or \<open>(k,)\<close> when \<open>n = 1\<close>. Every reduction of the source is along
  \<open>axis=0\<close> and every other operation is elementwise with the per-column result
  broadcast along axis 0, so each method works on the columns independently.
  An array is modelled as the list of its columns (\<open>P ! j\<close> is \<^verbatim>\<open>point[:, j]\<close>, a
  list of \<open>k\<close> entries; an array of shape \<open>(k,)\<close> is the one-column list), each
  method is given on one column (suffix \<open>_col\<close>) and then mapped over the columns.
  The methods are modelled on arguments of one common shape, which is what the
  manifold contract passes (numpy raises or broadcasts on other shapes); a theorem
  about arbitrary arrays carries the shape as a hypothesis. No method reads
  \<^verbatim>\<open>self\<close>, so the instance is not a parameter of the model.
\<close>

subsection \<open>Doubles\<close>

datatype fl = Fin real | PInf | NInf | NaN

fun fsign :: "fl \<Rightarrow> real" where
  "fsign (Fin a) = sgn a"
| "fsign PInf = 1"
| "fsign NInf = - 1"
| "fsign NaN = 0"

definition inf_of_sign :: "real \<Rightarrow> fl" where
  "inf_of_sign s = (if 0 < s then PInf else if s < 0 then NInf else NaN)"

instantiation fl :: "{plus, minus, uminus, times, inverse}"
begin

fun plus_fl :: "fl \<Rightarrow> fl \<Rightarrow> fl" where
  "Fin a + Fin b = Fin (a + b)"
| "NaN + _ = NaN"
| "_ + NaN = NaN"
| "PInf + NInf = NaN"
| "NInf + PInf = NaN"
| "PInf + _ = PInf"
| "_ + PInf = PInf"
| "NInf + _ = NInf"
| "_ + NInf = NInf"

fun uminus_fl :: "fl \<Rightarrow> fl" where
  "- Fin a = Fin (- a)"
| "- PInf = NInf"
| "- NInf = PInf"
| "- NaN = NaN"

definition minus_fl :: "fl \<Rightarrow> fl \<Rightarrow> fl" where
  "(x::fl) - y = x + (- y)"

fun times_fl :: "fl \<Rightarrow> fl \<Rightarrow> fl" where
  "Fin a * Fin b = Fin (a * b)"
| "NaN * _ = NaN"
| "_ * NaN = NaN"
| "x * y = inf_of_sign (fsign x * fsign y)"

fun divide_fl :: "fl \<Rightarrow> fl \<Rightarrow> fl" where
  "divide_fl (Fin a) (Fin b) = (if b \<noteq> 0 then Fin (a / b) else inf_of_sign (sgn a))"
| "divide_fl NaN _ = NaN"
| "divide_fl _ NaN = NaN"
| "divide_fl (Fin a) _ = Fin 0"
| "divide_fl x (Fin b) = inf_of_sign (fsign x * (if b < 0 then - 1 else 1))"
| "divide_fl _ _ = NaN"

definition inverse_fl :: "fl \<Rightarrow> fl" where
  "inverse_fl x = divide (Fin 1) x"

instance ..

end

text \<open>Comparison of doubles: any comparison with \<open>nan\<close> is false.\<close>

fun fless :: "fl \<Rightarrow> fl \<Rightarrow> bool" where
  "fless NaN _ = False"
| "fless _ NaN = False"
| "fless (Fin a) (Fin b) = (a < b)"
| "fless PInf _ = False"
| "fless _ PInf = True"
| "fless _ NInf = False"
| "fless NInf _ = True"

fun is_Fin :: "fl \<Rightarrow> bool" where
  "is_Fin (Fin a) = True"
| "is_Fin _ = False"

text \<open>\<^verbatim>\<open>np.sqrt\<close>, \<^verbatim>\<open>np.tanh\<close>, \<^verbatim>\<open>np.arctanh\<close>, \<^verbatim>\<open>np.arccosh\<close> on one double.\<close>

fun np_sqrt :: "fl \<Rightarrow> fl" where
  "np_sqrt (Fin a) = (if 0 \<le> a then Fin (sqrt a) else NaN)"
| "np_sqrt PInf = PInf"
| "np_sqrt _ = NaN"

fun np_tanh :: "fl \<Rightarrow> fl" where
  "np_tanh (Fin a) = Fin (tanh a)"
| "np_tanh PInf = Fin 1"
| "np_tanh NInf = Fin (- 1)"
| "np_tanh NaN = NaN"

fun np_arctanh :: "fl \<Rightarrow> fl" where
  "np_arctanh (Fin a) =
     (if \<bar>a\<bar> < 1 then Fin (artanh a)
      else if a = 1 then PInf else if a = - 1 then NInf else NaN)"
| "np_arctanh _ = NaN"

fun np_arccosh :: "fl \<Rightarrow> fl" where
  "np_arccosh (Fin a) = (if 1 \<le> a then Fin (arcosh a) else NaN)"
| "np_arccosh PInf = PInf"
| "np_arccosh _ = NaN"

subsection \<open>Columns and arrays\<close>

type_synonym column = "fl list"
type_synonym array = "column list"

text \<open>\<^verbatim>\<open>np.sum(x, axis=0)\<close> on one column.\<close>

definition np_sum :: "fl list \<Rightarrow> fl" where
  "np_sum xs = foldr (+) xs (Fin 0)"

text \<open>Elementwise product, difference and negation of columns.\<close>

definition mul :: "column \<Rightarrow> column \<Rightarrow> column" where
  "mul a b = map2 (*) a b"

definition sub :: "column \<Rightarrow> column \<Rightarrow> column" where
  "sub a b = map2 (-) a b"

definition neg :: "column \<Rightarrow> column" where
  "neg a = map uminus a"

text \<open>\<^verbatim>\<open>np.linalg.norm(x, axis=0)\<close> on one column: the root of the sum of squares.\<close>

definition linalg_norm :: "column \<Rightarrow> fl" where
  "linalg_norm x = np_sqrt (np_sum (mul x x))"

text \<open>\<^verbatim>\<open>np.zeros_like\<close>.\<close>

definition zeros_like_col :: "column \<Rightarrow> column" where
  "zeros_like_col x = map (\<lambda>_. Fin 0) x"

definition zeros_like :: "array \<Rightarrow> array" where
  "zeros_like x = map zeros_like_col x"

text \<open>
  \<^verbatim>\<open>np.divide(num, den, out=out, where=cond)\<close> on one column, where \<open>num\<close>, \<open>den\<close>
  and \<open>cond\<close> are per-column scalars broadcast along the column \<open>out\<close>: an entry
  of \<open>out\<close> is overwritten by the quotient where the condition holds and kept
  where it does not.
\<close>

definition np_divide_where :: "fl \<Rightarrow> fl \<Rightarrow> column \<Rightarrow> bool \<Rightarrow> column" where
  "np_divide_where num den out cond = map (\<lambda>z. if cond then num / den else z) out"

subsection \<open>The methods of \<^verbatim>\<open>PoincareBall\<close>\<close>

definition zero_vector :: "array \<Rightarrow> array" where
  "zero_vector point = zeros_like point"

definition conformal_factor_col :: "column \<Rightarrow> fl" where
  "conformal_factor_col point = Fin 2 / (Fin 1 - np_sum (mul point point))"

definition conformal_factor :: "array \<Rightarrow> fl list" where
  "conformal_factor point = map conformal_factor_col point"

definition mobius_addition_col :: "column \<Rightarrow> column \<Rightarrow> column" where
  "mobius_addition_col point_a point_b =
     (let scalar_product = np_sum (mul point_a point_b);
          norm_point_a = np_sum (mul point_a point_a);
          norm_point_b = np_sum (mul point_b point_b)
      in map2 (\<lambda>a b.
           (a * (Fin 1 + Fin 2 * scalar_product + norm_point_b)
            + b * (Fin 1 - norm_point_a))
           / (Fin 1 + Fin 2 * scalar_product + norm_point_a * norm_point_b))
         point_a point_b)"

definition mobius_addition :: "array \<Rightarrow> array \<Rightarrow> array" where
  "mobius_addition point_a point_b = map2 mobius_addition_col point_a point_b"

definition exp_col :: "column \<Rightarrow> column \<Rightarrow> column" where
  "exp_col point tangent_vector =
     (let norm_point = linalg_norm tangent_vector;
          W = mul tangent_vector
                (np_divide_where
                   (np_tanh (norm_point / (Fin 1 - np_sum (mul point point))))
                   norm_point
                   (zeros_like_col tangent_vector)
                   (norm_point \<noteq> Fin 0))
      in mobius_addition_col point W)"

definition exp_map :: "array \<Rightarrow> array \<Rightarrow> array" where
  "exp_map point tangent_vector = map2 exp_col point tangent_vector"

definition retraction :: "array \<Rightarrow> array \<Rightarrow> array" where
  "retraction = exp_map"

definition log_col :: "column \<Rightarrow> column \<Rightarrow> column" where
  "log_col point_a point_b =
     (let W = mobius_addition_col (neg point_a) point_b;
          norm_W = linalg_norm W
      in map (\<lambda>w.
           (Fin 1 - np_sum (mul point_a point_a)) * np_arctanh norm_W * w / norm_W) W)"

definition log_map :: "array \<Rightarrow> array \<Rightarrow> array" where
  "log_map point_a point_b = map2 log_col point_a point_b"

definition dist_col :: "column \<Rightarrow> column \<Rightarrow> fl" where
  "dist_col point_a point_b =
     (let norms2_point_a = np_sum (mul point_a point_a);
          norms2_point_b = np_sum (mul point_b point_b);
          difference = sub point_a point_b;
          norms2_difference = np_sum (mul difference difference)
      in np_arccosh
           (Fin 1
            + Fin 2 * norms2_difference
              / ((Fin 1 - norms2_point_a) * (Fin 1 - norms2_point_b))))"

definition dist :: "array \<Rightarrow> array \<Rightarrow> fl" where
  "dist point_a point_b =
     (let columns_dist = map2 dist_col point_a point_b
      in np_sqrt (np_sum (map (\<lambda>d. d * d) columns_dist)))"

definition euclidean_to_riemannian_gradient_col :: "column \<Rightarrow> column \<Rightarrow> column" where
  "euclidean_to_riemannian_gradient_col point euclidean_gradient =
     (let factors = Fin 1 / (conformal_factor_col point * conformal_factor_col point)
      in map (\<lambda>g. g * factors) euclidean_gradient)"

definition euclidean_to_riemannian_gradient :: "array \<Rightarrow> array \<Rightarrow> array" where
  "euclidean_to_riemannian_gradient point euclidean_gradient =
     map2 euclidean_to_riemannian_gradient_col point euclidean_gradient"

subsection \<open>Construction\<close>

text \<open>
  \<^verbatim>\<open>PoincareBall.__init__(self, k, n=1)\<close>. The arguments are Python integers. A
  \<^verbatim>\<open>raise\<close> is the left summand of the result; the instance is only returned when
  the constructor runs to its end. \<^verbatim>\<open>name\<close> is bound by neither branch of the
  \<^verbatim>\<open>if n == 1 / elif n >= 2\<close> chain when both tests fail, and its use would then
  raise \<^verbatim>\<open>UnboundLocalError\<close>.
\<close>

datatype error = ValueError string | UnboundLocalError

record manifold =
  m_k :: int
  m_n :: int
  m_name :: "string option"
  m_dimension :: "int option"

text \<open>The decimal digits of an integer, as an f-string prints it.\<close>

fun str_nat :: "nat \<Rightarrow> string" where
  "str_nat i =
     (if i < 10 then [''0123456789'' ! i]
      else str_nat (i div 10) @ [''0123456789'' ! (i mod 10)])"

declare str_nat.simps [simp del]

definition str :: "int \<Rightarrow> string" where
  "str i = (if i < 0 then ''-'' @ str_nat (nat (- i)) else str_nat (nat i))"

text \<open>
  Modelled from the spec: \<^verbatim>\<open>Manifold.__init__(name, dimension)\<close> of the base class
  (\<^verbatim>\<open>pymanopt/manifolds/manifold.py\<close> is not among the sources). The spec gives a
  manifold instance a display \<open>name\<close> and a \<open>dimension\<close>; the base constructor stores
  the two.
\<close>

definition Manifold_init :: "manifold \<Rightarrow> string \<Rightarrow> int \<Rightarrow> manifold" where
  "Manifold_init self name dimension =
     self\<lparr>m_name := Some name, m_dimension := Some dimension\<rparr>"

definition init :: "int \<Rightarrow> int \<Rightarrow> error + manifold" where
  "init k n =
     (let self = \<lparr>m_k = k, m_n = n, m_name = None, m_dimension = None\<rparr>
      in if k < 1 then Inl (ValueError (''Need k >= 1. Value given was k = '' @ str k))
         else if n < 1 then Inl (ValueError (''Need n >= 1. Value given was n = '' @ str n))
         else if n = 1 then
           Inr (Manifold_init self (''Poincare ball B('' @ str k @ '')'') (k * n))
         else if n \<ge> 2 then
           Inr (Manifold_init self (''Poincare ball B('' @ str k @ '')^'' @ str n) (k * n))
         else Inl UnboundLocalError)"

subsection \<open>Points, tangent vectors and ambient arrays\<close>

text \<open>
  A column is a valid point of one ball when its entries are finite and its Euclidean
  norm, as \<^verbatim>\<open>np.linalg.norm\<close> computes it, is below 1. A point of the product
  manifold has \<open>n\<close> such columns of \<open>k\<close> entries. A tangent vector or an ambient
  gradient is any array of that shape with finite entries.
\<close>

definition valid_col :: "column \<Rightarrow> bool" where
  "valid_col c = (list_all is_Fin c \<and> fless (linalg_norm c) (Fin 1))"

definition is_point :: "nat \<Rightarrow> nat \<Rightarrow> array \<Rightarrow> bool" where
  "is_point k n P = (length P = n \<and> list_all (\<lambda>c. length c = k \<and> valid_col c) P)"

definition is_array :: "nat \<Rightarrow> nat \<Rightarrow> array \<Rightarrow> bool" where
  "is_array k n V = (length V = n \<and> list_all (\<lambda>c. length c = k \<and> list_all is_Fin c) V)"

text \<open>The real number a finite double stands for.\<close>

fun val :: "fl \<Rightarrow> real" where
  "val (Fin a) = a"
| "val _ = 0"

subsection \<open>Real vectors\<close>

text \<open>
  The proofs go through the reals: a column of finite doubles is \<open>map Fin xs\<close> for a
  list \<open>xs\<close> of reals, and on such columns the methods compute the functions below.
  \<open>dot\<close> is the scalar product, \<open>axpby\<close> the linear combination of two vectors and
  \<open>mob\<close> the Moebius sum of two real vectors.
\<close>

definition dot :: "real list \<Rightarrow> real list \<Rightarrow> real" where
  "dot xs ys = sum_list (map2 (*) xs ys)"

definition axpby :: "real \<Rightarrow> real list \<Rightarrow> real \<Rightarrow> real list \<Rightarrow> real list" where
  "axpby \<alpha> xs \<beta> ys = map2 (\<lambda>x y. \<alpha> * x + \<beta> * y) xs ys"

definition mob :: "real list \<Rightarrow> real list \<Rightarrow> real list" where
  "mob xs ys =
     map2 (\<lambda>x y. (x * (1 + 2 * dot xs ys + dot ys ys) + y * (1 - dot xs xs))
                  / (1 + 2 * dot xs ys + dot xs xs * dot ys ys)) xs ys"

text \<open>
  The conformal factor in the words of the specification:
  \<open>\<lambda>(x) = 2 / (1 - \<parallel>x\<parallel>\<^sup>2)\<close>, with \<open>\<parallel>x\<parallel>\<close> the Euclidean norm of a real vector.
\<close>

definition conformal_spec :: "real list \<Rightarrow> real" where
  "conformal_spec x = 2 / (1 - (sqrt (sum_list (map (\<lambda>e. e\<^sup>2) x)))\<^sup>2)"

subsection \<open>Rounding to binary64\<close>

text \<open>
  The integer nearest to a real, the even one of the two when it lies half way.
\<close>

definition round_half_even :: "real \<Rightarrow> int" where
  "round_half_even x =
     (let f = \<lfloor>x\<rfloor>; d = x - of_int f
      in if d < 1/2 then f else if 1/2 < d then f + 1 else if even f then f else f + 1)"

text \<open>
  The double nearest to a real \<open>x\<close>. With \<open>2\<^sup>e \<le> \<bar>x\<bar> < 2\<^sup>e\<^sup>+\<^sup>1\<close> the doubles around \<open>x\<close>
  are the multiples of \<open>2\<^sup>e\<^sup>-\<^sup>5\<^sup>2\<close> (a significand of 53 bits); below \<open>2\<^sup>-\<^sup>1\<^sup>0\<^sup>2\<^sup>2\<close> they are
  the multiples of \<open>2\<^sup>-\<^sup>1\<^sup>0\<^sup>7\<^sup>4\<close> (the subnormal numbers); a result of magnitude \<open>2\<^sup>1\<^sup>0\<^sup>2\<^sup>4\<close>
  or more is the infinity of that sign.
\<close>

definition binary64 :: "real \<Rightarrow> fl" where
  "binary64 x =
     (if x = 0 then Fin 0
      else let e = max \<lfloor>log 2 \<bar>x\<bar>\<rfloor> (- 1022);
               q = 2 powi (e - 52);
               y = of_int (round_half_even (x / q)) * q
           in if 2 powi 1024 \<le> \<bar>y\<bar> then inf_of_sign x else Fin y)"

text \<open>The rounding of the result of one operation; a special value is kept.\<close>

fun rnd :: "fl \<Rightarrow> fl" where
  "rnd (Fin x) = binary64 x"
| "rnd s = s"

subsection \<open>The methods on binary64\<close>

text \<open>
  \<^verbatim>\<open>np.sum\<close>, the elementwise product, \<^verbatim>\<open>np.linalg.norm\<close>, \<^verbatim>\<open>conformal_factor\<close> and
  \<^verbatim>\<open>mobius_addition\<close> with every operation of the source rounded, in the order in
  which Python evaluates the expression. The entries of a column are added in index
  order, starting from 0. \<^verbatim>\<open>np.sqrt\<close> is correctly rounded.
\<close>

definition np_sum64 :: "fl list \<Rightarrow> fl" where
  "np_sum64 xs = foldl (\<lambda>s x. rnd (s + x)) (Fin 0) xs"

definition mul64 :: "column \<Rightarrow> column \<Rightarrow> column" where
  "mul64 a b = map2 (\<lambda>x y. rnd (x * y)) a b"

definition linalg_norm64 :: "column \<Rightarrow> fl" where
  "linalg_norm64 x = rnd (np_sqrt (np_sum64 (mul64 x x)))"

definition conformal_factor_col64 :: "column \<Rightarrow> fl" where
  "conformal_factor_col64 point = rnd (Fin 2 / rnd (Fin 1 - np_sum64 (mul64 point point)))"

definition conformal_factor64 :: "array \<Rightarrow> fl list" where
  "conformal_factor64 point = map conformal_factor_col64 point"

definition mobius_addition_col64 :: "column \<Rightarrow> column \<Rightarrow> column" where
  "mobius_addition_col64 point_a point_b =
     (let scalar_product = np_sum64 (mul64 point_a point_b);
          norm_point_a = np_sum64 (mul64 point_a point_a);
          norm_point_b = np_sum64 (mul64 point_b point_b)
      in map2 (\<lambda>a b.
           rnd (rnd (rnd (a * rnd (rnd (Fin 1 + rnd (Fin 2 * scalar_product)) + norm_point_b))
                     + rnd (b * rnd (Fin 1 - norm_point_a)))
                / rnd (rnd (Fin 1 + rnd (Fin 2 * scalar_product))
                       + rnd (norm_point_a * norm_point_b))))
         point_a point_b)"

definition mobius_addition64 :: "array \<Rightarrow> array \<Rightarrow> array" where
  "mobius_addition64 point_a point_b = map2 mobius_addition_col64 point_a point_b"

text \<open>
  A column is a valid point on binary64 when its entries are finite and the norm
  computed on doubles is below 1.
\<close>

definition valid_col64 :: "column \<Rightarrow> bool" where
  "valid_col64 c = (list_all is_Fin c \<and> fless (linalg_norm64 c) (Fin 1))"

definition is_point64 :: "nat \<Rightarrow> nat \<Rightarrow> array \<Rightarrow> bool" where
  "is_point64 k n P = (length P = n \<and> list_all (\<lambda>c. length c = k \<and> valid_col64 c) P)"

text \<open>
  Used in the proofs: the values a rounding can return (an integer of magnitude at
  most \<open>2\<^sup>5\<^sup>3\<close> times a power of 2 not below \<open>2\<^sup>-\<^sup>1\<^sup>0\<^sup>7\<^sup>4\<close>), and the doubles that are
  either non-negative or \<open>+inf\<close>.
\<close>

definition double_val :: "real \<Rightarrow> bool" where
  "double_val y = (\<exists>m j. y = of_int m * 2 powi j \<and> \<bar>m\<bar> \<le> 2 ^ 53 \<and> - 1074 \<le> j)"

fun nn :: "fl \<Rightarrow> bool" where
  "nn (Fin y) = (0 \<le> y \<and> double_val y)"
| "nn PInf = True"
| "nn _ = False"

section \<open>Properties\<close>

subsection \<open>Finite columns compute over the reals\<close>

lemma minus_Fin [simp]: "Fin a - Fin b = Fin (a - b)"
  by (simp add: minus_fl_def)

lemma np_sum_Fin [simp]: "np_sum (map Fin xs) = Fin (sum_list xs)"
  by (induction xs) (simp_all add: np_sum_def)

lemma mul_Fin: "mul (map Fin xs) (map Fin ys) = map Fin (map2 (*) xs ys)"
  by (auto simp: mul_def zip_map_map)

lemma sub_Fin: "sub (map Fin xs) (map Fin ys) = map Fin (map2 (-) xs ys)"
  by (auto simp: sub_def zip_map_map)

lemma neg_Fin [simp]: "neg (map Fin xs) = map Fin (map uminus xs)"
  by (simp add: neg_def)

lemma np_sum_mul_Fin: "np_sum (mul (map Fin xs) (map Fin ys)) = Fin (dot xs ys)"
  by (simp only: mul_Fin np_sum_Fin dot_def)

subsection \<open>The scalar product of real vectors\<close>

lemma dot_nonneg: "0 \<le> dot xs xs"
  unfolding dot_def by (induction xs) simp_all

lemma dot_commute: "dot xs ys = dot ys xs"
  unfolding dot_def
proof (induction xs arbitrary: ys)
  case Nil
  then show ?case by simp
next
  case (Cons x xs)
  then show ?case by (cases ys) (simp_all add: mult.commute)
qed

lemma dot_eq_0_iff: "dot xs xs = 0 \<longleftrightarrow> (\<forall>x\<in>set xs. x = 0)"
  unfolding dot_def
proof (induction xs)
  case Nil
  then show ?case by simp
next
  case (Cons x xs)
  have "0 \<le> sum_list (map2 (*) xs xs)" using dot_nonneg[of xs] by (simp add: dot_def)
  moreover have "0 \<le> x * x" by simp
  ultimately have "x * x + sum_list (map2 (*) xs xs) = 0 \<longleftrightarrow> x * x = 0 \<and> sum_list (map2 (*) xs xs) = 0"
    by (simp add: add_nonneg_eq_0_iff)
  with Cons show ?case by simp
qed

lemma dot_axpby_left:
  "length xs = length ys \<Longrightarrow> length ys = length zs \<Longrightarrow>
   dot (axpby \<alpha> xs \<beta> ys) zs = \<alpha> * dot xs zs + \<beta> * dot ys zs"
  unfolding dot_def axpby_def
  by (induction xs ys zs rule: list_induct3) (simp_all add: algebra_simps)

lemma dot_axpby_right:
  "length xs = length ys \<Longrightarrow> length ys = length zs \<Longrightarrow>
   dot zs (axpby \<alpha> xs \<beta> ys) = \<alpha> * dot zs xs + \<beta> * dot zs ys"
  by (simp add: dot_commute[of zs] dot_axpby_left)

lemma length_axpby [simp]: "length (axpby \<alpha> xs \<beta> ys) = min (length xs) (length ys)"
  by (simp add: axpby_def)

lemma dot_axpby_self:
  assumes "length xs = length ys"
  shows "dot (axpby \<alpha> xs \<beta> ys) (axpby \<alpha> xs \<beta> ys)
         = \<alpha> * \<alpha> * dot xs xs + 2 * \<alpha> * \<beta> * dot xs ys + \<beta> * \<beta> * dot ys ys"
proof -
  have l: "length ys = length (axpby \<alpha> xs \<beta> ys)" using assms by simp
  have "dot (axpby \<alpha> xs \<beta> ys) (axpby \<alpha> xs \<beta> ys)
        = \<alpha> * dot xs (axpby \<alpha> xs \<beta> ys) + \<beta> * dot ys (axpby \<alpha> xs \<beta> ys)"
    using dot_axpby_left[OF assms l] .
  also have "dot xs (axpby \<alpha> xs \<beta> ys) = \<alpha> * dot xs xs + \<beta> * dot xs ys"
    using dot_axpby_right[OF assms, of xs] assms by simp
  also have "dot ys (axpby \<alpha> xs \<beta> ys) = \<alpha> * dot ys xs + \<beta> * dot ys ys"
    using dot_axpby_right[OF assms, of ys] assms by simp
  finally show ?thesis by (simp add: algebra_simps dot_commute[of ys xs])
qed

lemma Cauchy_Schwarz_dot:
  assumes "length xs = length ys"
  shows "(dot xs ys)\<^sup>2 \<le> dot xs xs * dot ys ys"
proof -
  define a where "a = dot xs xs"
  define b where "b = dot ys ys"
  define s where "s = dot xs ys"
  have q: "0 \<le> t * t * a + 2 * t * s + b" for t
    using dot_nonneg[of "axpby t xs 1 ys"] dot_axpby_self[OF assms, of t 1]
    by (simp add: a_def b_def s_def)
  have a0: "0 \<le> a" and b0: "0 \<le> b" by (simp_all add: a_def b_def dot_nonneg)
  show ?thesis
  proof (cases "a = 0")
    case True
    have "s = 0"
    proof (rule ccontr)
      assume "s \<noteq> 0"
      have "0 \<le> 2 * (- (b + 1) / (2 * s)) * s + b" using q[of "- (b + 1) / (2 * s)"] True by simp
      also have "2 * (- (b + 1) / (2 * s)) * s = - (b + 1)" using \<open>s \<noteq> 0\<close> by simp
      finally show False by simp
    qed
    then show ?thesis using True by (simp add: a_def b_def s_def)
  next
    case False
    then have ap: "0 < a" using a0 by simp
    have "0 \<le> (- s / a) * (- s / a) * a + 2 * (- s / a) * s + b" using q[of "- s / a"] .
    also have "(- s / a) * (- s / a) * a + 2 * (- s / a) * s + b = b - s\<^sup>2 / a"
      using False by (simp add: field_simps power2_eq_square)
    finally have "s\<^sup>2 / a \<le> b" by simp
    then have "s\<^sup>2 \<le> b * a" using ap by (simp add: pos_divide_le_eq)
    then show ?thesis by (simp add: a_def b_def s_def mult.commute)
  qed
qed

subsection \<open>Moebius addition of real vectors\<close>

lemma mobius_addition_col_Fin:
  assumes "1 + 2 * dot xs ys + dot xs xs * dot ys ys \<noteq> 0"
  shows "mobius_addition_col (map Fin xs) (map Fin ys) = map Fin (mob xs ys)"
  using assms
  by (auto simp: mobius_addition_col_def np_sum_mul_Fin mob_def zip_map_map Let_def)

lemma mob_axpby:
  "mob xs ys = axpby ((1 + 2 * dot xs ys + dot ys ys) / (1 + 2 * dot xs ys + dot xs xs * dot ys ys)) xs
                     ((1 - dot xs xs) / (1 + 2 * dot xs ys + dot xs xs * dot ys ys)) ys"
proof -
  have "(x * A + y * B) / D = A / D * x + B / D * y" for x y A B D :: real
    by (simp add: add_divide_distrib mult.commute)
  then show ?thesis by (simp only: mob_def axpby_def)
qed

lemma length_mob [simp]: "length (mob xs ys) = min (length xs) (length ys)"
  by (simp add: mob_def)

lemma mob_denom_pos:
  assumes "length xs = length ys" "dot xs xs < 1" "dot ys ys < 1"
  shows "0 < 1 + 2 * dot xs ys + dot xs xs * dot ys ys"
proof -
  define a where "a = dot xs xs"
  define b where "b = dot ys ys"
  define s where "s = dot xs ys"
  have cs: "s\<^sup>2 \<le> a * b" using Cauchy_Schwarz_dot[OF assms(1)] by (simp add: a_def b_def s_def)
  have a0: "0 \<le> a" "a < 1" and b0: "0 \<le> b" "b < 1"
    using assms by (simp_all add: a_def b_def dot_nonneg)
  have "a * b \<le> a * 1" using a0 b0 by (intro mult_left_mono) simp_all
  then have ab: "a * b < 1" using a0 by simp
  have sq: "(1 + s)\<^sup>2 \<le> 1 + 2 * s + a * b" using cs by (simp add: power2_eq_square algebra_simps)
  have "0 < 1 + 2 * s + a * b"
  proof (cases "s = - 1")
    case True
    then have "1 \<le> a * b" using cs by simp
    then show ?thesis using ab by simp
  next
    case False
    then have "0 < (1 + s)\<^sup>2" by simp
    then show ?thesis using sq by linarith
  qed
  then show ?thesis by (simp add: a_def b_def s_def)
qed

lemma dot_mob_self:
  assumes "length xs = length ys" "1 + 2 * dot xs ys + dot xs xs * dot ys ys \<noteq> 0"
  shows "1 - dot (mob xs ys) (mob xs ys)
         = (1 - dot xs xs) * (1 - dot ys ys) / (1 + 2 * dot xs ys + dot xs xs * dot ys ys)"
proof -
  define a where "a = dot xs xs"
  define b where "b = dot ys ys"
  define s where "s = dot xs ys"
  define D where "D = 1 + 2 * s + a * b"
  have D: "D \<noteq> 0" using assms(2) by (simp add: D_def a_def b_def s_def)
  have "dot (mob xs ys) (mob xs ys)
        = ((1 + 2 * s + b) / D) * ((1 + 2 * s + b) / D) * a
          + 2 * ((1 + 2 * s + b) / D) * ((1 - a) / D) * s
          + ((1 - a) / D) * ((1 - a) / D) * b"
    unfolding mob_axpby dot_axpby_self[OF assms(1)] by (simp add: a_def b_def s_def D_def)
  also have "1 - \<dots> = (D * D - ((1 + 2 * s + b) * (1 + 2 * s + b) * a
          + 2 * (1 + 2 * s + b) * (1 - a) * s + (1 - a) * (1 - a) * b)) / (D * D)"
    using D by (simp add: field_simps)
  also have "D * D - ((1 + 2 * s + b) * (1 + 2 * s + b) * a
          + 2 * (1 + 2 * s + b) * (1 - a) * s + (1 - a) * (1 - a) * b) = (1 - a) * (1 - b) * D"
    unfolding D_def by (simp add: algebra_simps)
  also have "(1 - a) * (1 - b) * D / (D * D) = (1 - a) * (1 - b) / D"
    using D by simp
  finally show ?thesis by (simp add: a_def b_def s_def D_def)
qed

lemma mob_closed:
  assumes "length xs = length ys" "dot xs xs < 1" "dot ys ys < 1"
  shows "dot (mob xs ys) (mob xs ys) < 1"
proof -
  have D: "0 < 1 + 2 * dot xs ys + dot xs xs * dot ys ys" using mob_denom_pos[OF assms] .
  have "0 < (1 - dot xs xs) * (1 - dot ys ys) / (1 + 2 * dot xs ys + dot xs xs * dot ys ys)"
    using assms D by simp
  then show ?thesis using dot_mob_self[OF assms(1)] D by simp
qed

subsection \<open>Valid columns are real vectors of norm below 1\<close>

lemma is_Fin_val: "is_Fin x \<Longrightarrow> Fin (val x) = x"
  by (cases x) simp_all

lemma finite_col_lift: "list_all is_Fin c \<Longrightarrow> map Fin (map val c) = c"
  by (induction c) (simp_all add: is_Fin_val)

lemma list_all_is_Fin_map [simp]: "list_all is_Fin (map Fin xs)"
  by (induction xs) simp_all

lemma linalg_norm_Fin: "linalg_norm (map Fin xs) = Fin (sqrt (dot xs xs))"
  by (simp add: linalg_norm_def np_sum_mul_Fin dot_nonneg)

lemma valid_col_Fin: "valid_col (map Fin xs) \<longleftrightarrow> dot xs xs < 1"
  by (simp add: valid_col_def linalg_norm_Fin)

lemma valid_colE:
  assumes "valid_col c"
  obtains xs where "c = map Fin xs" "dot xs xs < 1" "length xs = length c"
proof -
  from assms have f: "list_all is_Fin c" by (simp add: valid_col_def)
  then have c: "c = map Fin (map val c)" by (rule finite_col_lift[symmetric])
  have "valid_col (map Fin (map val c))" using assms c by metis
  then have "dot (map val c) (map val c) < 1" by (simp only: valid_col_Fin)
  with c show thesis using that[of "map val c"] by simp
qed

lemma finite_colE:
  assumes "list_all is_Fin c"
  obtains xs where "c = map Fin xs" "length xs = length c"
  using finite_col_lift[OF assms, symmetric] that[of "map val c"] by simp

lemma is_point_is_array: "is_point k n P \<Longrightarrow> is_array k n P"
  by (auto simp: is_point_def is_array_def valid_col_def list_all_iff)

lemma mobius_addition_col_closed:
  assumes "valid_col a" "valid_col b" "length a = length b"
  shows "valid_col (mobius_addition_col a b) \<and> length (mobius_addition_col a b) = length a"
proof -
  from assms(1) obtain xs where a: "a = map Fin xs" "dot xs xs < 1" "length xs = length a"
    by (rule valid_colE)
  from assms(2) obtain ys where b: "b = map Fin ys" "dot ys ys < 1" "length ys = length b"
    by (rule valid_colE)
  have l: "length xs = length ys" using a b assms(3) by simp
  have D: "0 < 1 + 2 * dot xs ys + dot xs xs * dot ys ys"
    using mob_denom_pos[OF l a(2) b(2)] .
  then have m: "mobius_addition_col a b = map Fin (mob xs ys)"
    using mobius_addition_col_Fin[of xs ys] a b by simp
  have "length (mob xs ys) = length a" using l a(3) by simp
  then show ?thesis
    unfolding m using mob_closed[OF l a(2) b(2)] by (simp add: valid_col_Fin)
qed

lemma map2_cong_pointwise:
  assumes "length A = n" "length B = n"
    and "\<And>j. j < n \<Longrightarrow> f (A ! j) (B ! j) = g (A ! j) (B ! j)"
  shows "map2 f A B = map2 g A B"
  using assms by (auto simp: list_eq_iff_nth_eq)

lemma is_point_nth: "is_point k n P \<Longrightarrow> j < n \<Longrightarrow> length (P ! j) = k \<and> valid_col (P ! j)"
  by (auto simp: is_point_def list_all_length)

lemma is_array_nth: "is_array k n P \<Longrightarrow> j < n \<Longrightarrow> length (P ! j) = k \<and> list_all is_Fin (P ! j)"
  by (auto simp: is_array_def list_all_length)

subsection \<open>Moebius addition stays in the ball, in exact arithmetic\<close>

text \<open>
  In exact arithmetic Moebius addition is closed in the open unit ball: the sum of
  two points of the product manifold is a point of it.
\<close>

lemma mobius_addition_closed_exact:
  assumes "is_point k n A" "is_point k n B"
  shows "is_point k n (mobius_addition A B)"
proof -
  have lA: "length A = n" and lB: "length B = n" using assms by (simp_all add: is_point_def)
  have "length (mobius_addition A B ! j) = k \<and> valid_col (mobius_addition A B ! j)" if "j < n" for j
  proof -
    have "mobius_addition A B ! j = mobius_addition_col (A ! j) (B ! j)"
      using that lA lB by (simp add: mobius_addition_def)
    then show ?thesis
      using mobius_addition_col_closed[of "A ! j" "B ! j"]
        is_point_nth[OF assms(1) that] is_point_nth[OF assms(2) that] by simp
  qed
  then show ?thesis using lA lB by (simp add: is_point_def list_all_length mobius_addition_def)
qed

subsection \<open>Zero tangent vectors and zero points\<close>

lemma zeros_like_col_Fin: "zeros_like_col (map Fin xs) = map Fin (map (\<lambda>_. 0) xs)"
  by (simp add: zeros_like_col_def)

lemma dot_zero_right [simp]: "dot xs (map (\<lambda>_. 0) ys) = 0"
  unfolding dot_def
proof (induction xs arbitrary: ys)
  case Nil
  then show ?case by simp
next
  case (Cons x xs)
  then show ?case by (cases ys) simp_all
qed

lemma dot_zero_left [simp]: "dot (map (\<lambda>_. 0) ys) xs = 0"
  by (simp add: dot_commute[of _ xs])

lemma mob_zero_right: "mob xs (map (\<lambda>_. 0) xs) = xs"
  by (simp add: mob_def list_eq_iff_nth_eq)

lemma mobius_addition_col_zero_right:
  assumes "list_all is_Fin a"
  shows "mobius_addition_col a (zeros_like_col a) = a"
proof -
  from assms obtain xs where a: "a = map Fin xs" by (rule finite_colE)
  have "mobius_addition_col (map Fin xs) (map Fin (map (\<lambda>_. 0) xs)) = map Fin (mob xs (map (\<lambda>_. 0) xs))"
    by (rule mobius_addition_col_Fin) simp
  then show ?thesis by (simp only: a zeros_like_col_Fin mob_zero_right)
qed

lemma linalg_norm_zeros: "linalg_norm (zeros_like_col c) = Fin 0"
proof -
  have "zeros_like_col c = map Fin (map (\<lambda>_. 0) c)" by (simp add: zeros_like_col_def)
  then have "linalg_norm (zeros_like_col c) = Fin (sqrt (dot (map (\<lambda>_. 0) c) (map (\<lambda>_. 0) c)))"
    by (simp only: linalg_norm_Fin)
  then show ?thesis by simp
qed

lemma mul_zeros: "mul (zeros_like_col c) (zeros_like_col (zeros_like_col c)) = zeros_like_col c"
  by (simp add: mul_def zeros_like_col_def list_eq_iff_nth_eq)

lemma exp_col_zero:
  assumes "list_all is_Fin p"
  shows "exp_col p (zeros_like_col p) = p"
proof -
  have "np_divide_where num den (zeros_like_col (zeros_like_col p)) False
        = zeros_like_col (zeros_like_col p)" for num den
    by (simp add: np_divide_where_def)
  then have "exp_col p (zeros_like_col p) = mobius_addition_col p (zeros_like_col p)"
    by (simp add: exp_col_def linalg_norm_zeros mul_zeros)
  then show ?thesis by (simp only: mobius_addition_col_zero_right[OF assms])
qed

lemma map2_map_right_id:
  assumes "\<And>c. c \<in> set P \<Longrightarrow> f c (g c) = c"
  shows "map2 f P (map g P) = P"
  using assms by (simp add: list_eq_iff_nth_eq)

text \<open>
  C3. For every valid point \<open>p\<close>, \<open>exp(p, zero_vector(p)) = p\<close>. The norm of the zero
  tangent vector is 0, the \<^verbatim>\<open>where\<close> mask of \<^verbatim>\<open>np.divide\<close> is false, the quotient is
  not taken and the zero of \<^verbatim>\<open>out\<close> is kept: the displacement \<open>W\<close> is 0 and the
  result is the finite point \<open>p\<close>, not \<open>nan\<close>.
\<close>

theorem exp_zero_vector:
  assumes "is_point k n p"
  shows "exp_map p (zero_vector p) = p"
proof -
  have "exp_col c (zeros_like_col c) = c" if "c \<in> set p" for c
    using that assms by (intro exp_col_zero) (auto simp: is_point_def valid_col_def list_all_iff)
  then show ?thesis
    unfolding exp_map_def zero_vector_def zeros_like_def by (rule map2_map_right_id)
qed

theorem exp_zero_vector_witness:
  "is_point 2 1 [[Fin (1/2), Fin 0]]
   \<and> exp_map [[Fin (1/2), Fin 0]] (zero_vector [[Fin (1/2), Fin 0]]) = [[Fin (1/2), Fin 0]]"
proof -
  have h: "is_point 2 1 [[Fin (1/2), Fin 0]]"
    by (simp add: is_point_def valid_col_def linalg_norm_def mul_def np_sum_def)
  show ?thesis using h exp_zero_vector[OF h] by simp
qed

text \<open>
  C10. Zero is a right identity of Moebius addition: \<open>mobius_addition(a, zero_vector(a))\<close>
  is \<open>a\<close> itself, for every point \<open>a\<close> of the manifold. Every step is exact on doubles
  there: the products with 0 are 0, the two factors are 1 and the denominator is 1.
\<close>

theorem mobius_addition_zero_right:
  assumes "is_point k n a"
  shows "mobius_addition a (zero_vector a) = a"
proof -
  have "mobius_addition_col c (zeros_like_col c) = c" if "c \<in> set a" for c
    using that assms
    by (intro mobius_addition_col_zero_right) (auto simp: is_point_def valid_col_def list_all_iff)
  then show ?thesis
    unfolding mobius_addition_def zero_vector_def zeros_like_def by (rule map2_map_right_id)
qed

theorem mobius_addition_zero_right_witness:
  "is_point 2 1 [[Fin (1/4), Fin (1/2)]]
   \<and> mobius_addition [[Fin (1/4), Fin (1/2)]] (zero_vector [[Fin (1/4), Fin (1/2)]])
     = [[Fin (1/4), Fin (1/2)]]"
proof -
  have h: "is_point 2 1 [[Fin (1/4), Fin (1/2)]]"
    by (simp add: is_point_def valid_col_def linalg_norm_def mul_def np_sum_def)
  show ?thesis using h mobius_addition_zero_right[OF h] by simp
qed

subsection \<open>The retraction\<close>

text \<open>
  C8. The retraction is the exponential map itself (the class attribute
  \<^verbatim>\<open>retraction = exp\<close>): both return the same result on every point and tangent
  vector.
\<close>

theorem retraction_is_exp: "retraction point tangent_vector = exp_map point tangent_vector"
  by (simp add: retraction_def)

subsection \<open>Distance\<close>

lemma dot_sub_commute:
  "dot (map2 (-) xs ys) (map2 (-) xs ys) = dot (map2 (-) ys xs) (map2 (-) ys xs)"
  unfolding dot_def
proof (induction xs arbitrary: ys)
  case Nil
  then show ?case by simp
next
  case (Cons x xs)
  then show ?case by (cases ys) (simp_all add: algebra_simps)
qed

lemma dist_col_Fin:
  "dist_col (map Fin xs) (map Fin ys)
   = np_arccosh (Fin 1 + Fin 2 * Fin (dot (map2 (-) xs ys) (map2 (-) xs ys))
                          / (Fin (1 - dot xs xs) * Fin (1 - dot ys ys)))"
  by (simp only: dist_col_def Let_def sub_Fin np_sum_mul_Fin minus_Fin)

lemma dist_col_commute:
  assumes "list_all is_Fin a" "list_all is_Fin b"
  shows "dist_col a b = dist_col b a"
proof -
  from assms(1) obtain xs where a: "a = map Fin xs" by (rule finite_colE)
  from assms(2) obtain ys where b: "b = map Fin ys" by (rule finite_colE)
  show ?thesis
    unfolding a b dist_col_Fin by (simp add: dot_sub_commute[of xs ys] mult.commute)
qed

lemma dist_col_self:
  assumes "valid_col c"
  shows "dist_col c c = Fin 0"
proof -
  from assms obtain xs where c: "c = map Fin xs" "dot xs xs < 1" by (rule valid_colE)
  have z: "map2 (-) xs xs = map (\<lambda>_. 0) xs" by (simp add: list_eq_iff_nth_eq)
  have "1 - dot xs xs \<noteq> 0" using c(2) by simp
  then show ?thesis unfolding c(1) dist_col_Fin z by simp
qed

lemma np_sum_zeros: "np_sum (map (\<lambda>_. Fin 0) xs) = Fin 0"
  by (induction xs) (simp_all add: np_sum_def)



subsection \<open>The conformal factor and the gradient\<close>

lemma conformal_spec_dot: "conformal_spec xs = 2 / (1 - dot xs xs)"
proof -
  have "sum_list (map (\<lambda>e. e\<^sup>2) xs) = dot xs xs"
    unfolding dot_def by (induction xs) (simp_all add: power2_eq_square)
  then show ?thesis using dot_nonneg[of xs] by (simp add: conformal_spec_def)
qed

lemma conformal_factor_col_Fin:
  "dot xs xs < 1 \<Longrightarrow> conformal_factor_col (map Fin xs) = Fin (conformal_spec xs)"
  by (simp add: conformal_factor_col_def np_sum_mul_Fin conformal_spec_dot)

lemma val_map_Fin: "map val (map Fin xs) = xs"
  by (induction xs) simp_all

lemma zeros_like_col_iff: "map Fin xs = zeros_like_col (map Fin xs) \<longleftrightarrow> (\<forall>x\<in>set xs. x = 0)"
  by (induction xs) (auto simp: zeros_like_col_def)

lemma gradient_col_Fin:
  assumes "dot xs xs < 1"
  shows "euclidean_to_riemannian_gradient_col (map Fin xs) (map Fin gs)
         = map Fin (map (\<lambda>g. g * (1 / (conformal_spec xs)\<^sup>2)) gs)"
proof -
  have "conformal_spec xs \<noteq> 0" using assms by (simp add: conformal_spec_dot)
  then show ?thesis
    by (simp add: euclidean_to_riemannian_gradient_col_def conformal_factor_col_Fin[OF assms]
        power2_eq_square)
qed

lemma gradient_rescale:
  assumes "is_point k n x" "is_array k n g"
  shows "euclidean_to_riemannian_gradient x g
         = map2 (\<lambda>c gc. map (\<lambda>e. Fin (val e * (1 / (conformal_spec (map val c))\<^sup>2))) gc) x g"
proof -
  have lx: "length x = n" and lg: "length g = n"
    using assms by (simp_all add: is_point_def is_array_def)
  have "euclidean_to_riemannian_gradient_col (x ! j) (g ! j)
        = map (\<lambda>e. Fin (val e * (1 / (conformal_spec (map val (x ! j)))\<^sup>2))) (g ! j)"
    if "j < n" for j
  proof -
    from is_point_nth[OF assms(1) that] obtain xs where c: "x ! j = map Fin xs" "dot xs xs < 1"
      by (auto elim: valid_colE)
    from is_array_nth[OF assms(2) that] obtain gs where gc: "g ! j = map Fin gs"
      by (auto elim: finite_colE)
    show ?thesis unfolding c(1) gc gradient_col_Fin[OF c(2)] val_map_Fin by simp
  qed
  then show ?thesis
    unfolding euclidean_to_riemannian_gradient_def using lx lg by (intro map2_cong_pointwise)
qed

text \<open>
  C7. At a valid point \<open>x\<close> and for an ambient gradient \<open>g\<close> with finite entries,
  \<open>euclidean_to_riemannian_gradient(x, g)\<close> is \<open>g\<close> with every entry of column \<open>j\<close>
  multiplied by \<open>1 / \<lambda>(x\<^sub>j)\<^sup>2\<close>, where \<open>\<lambda>(x) = 2 / (1 - \<parallel>x\<parallel>\<^sup>2)\<close>; at \<open>x = [0, 0]\<close> and
  \<open>g = [1, 0]\<close> the result is \<open>[0.25, 0]\<close>.
\<close>

theorem euclidean_to_riemannian_gradient_rescale:
  "(is_point k n x \<and> is_array k n g \<longrightarrow>
      euclidean_to_riemannian_gradient x g
      = map2 (\<lambda>c gc. map (\<lambda>e. Fin (val e * (1 / (conformal_spec (map val c))\<^sup>2))) gc) x g)
   \<and> euclidean_to_riemannian_gradient [[Fin 0, Fin 0]] [[Fin 1, Fin 0]] = [[Fin (1/4), Fin 0]]"
proof
  show "is_point k n x \<and> is_array k n g \<longrightarrow>
      euclidean_to_riemannian_gradient x g
      = map2 (\<lambda>c gc. map (\<lambda>e. Fin (val e * (1 / (conformal_spec (map val c))\<^sup>2))) gc) x g"
    using gradient_rescale by blast
next
  show "euclidean_to_riemannian_gradient [[Fin 0, Fin 0]] [[Fin 1, Fin 0]] = [[Fin (1/4), Fin 0]]"
    by (simp add: euclidean_to_riemannian_gradient_def euclidean_to_riemannian_gradient_col_def
        conformal_factor_col_def mul_def np_sum_def)
qed

theorem euclidean_to_riemannian_gradient_rescale_witness:
  "is_point 2 1 [[Fin (1/2), Fin 0]] \<and> is_array 2 1 [[Fin 1, Fin 3]]
   \<and> euclidean_to_riemannian_gradient [[Fin (1/2), Fin 0]] [[Fin 1, Fin 3]]
     = [[Fin (9/64), Fin (27/64)]]"
proof -
  have h1: "is_point 2 1 [[Fin (1/2), Fin 0]]"
    by (simp add: is_point_def valid_col_def linalg_norm_def mul_def np_sum_def)
  have h2: "is_array 2 1 [[Fin 1, Fin 3]]"
    by (simp add: is_array_def)
  have c: "conformal_spec [1/2, 0] = 8/3"
    by (simp add: conformal_spec_def power2_eq_square)
  show ?thesis
    using h1 h2 euclidean_to_riemannian_gradient_rescale[of 2 1 "[[Fin (1/2), Fin 0]]" "[[Fin 1, Fin 3]]"]
    by (simp add: c power2_eq_square)
qed

subsection \<open>The errors of the constructor\<close>

text \<open>
  C6. The constructor raises if and only if \<open>k < 1\<close> or \<open>n < 1\<close>. The error is a
  \<^verbatim>\<open>ValueError\<close> whose message names the parameter tested first that is out of
  range, \<open>k\<close> before \<open>n\<close>, and prints its value; no instance is returned with it.
  For \<open>k \<ge> 1\<close> and \<open>n \<ge> 1\<close> the instance is returned with dimension \<open>k * n\<close>.
\<close>

theorem init_error:
  "((\<exists>e. init k n = Inl e) \<longleftrightarrow> k < 1 \<or> n < 1)
   \<and> (k < 1 \<longrightarrow> init k n = Inl (ValueError (''Need k >= 1. Value given was k = '' @ str k)))
   \<and> (1 \<le> k \<and> n < 1 \<longrightarrow>
        init k n = Inl (ValueError (''Need n >= 1. Value given was n = '' @ str n)))
   \<and> (1 \<le> k \<and> 1 \<le> n \<longrightarrow>
        (\<exists>M. init k n = Inr M \<and> m_k M = k \<and> m_n M = n \<and> m_dimension M = Some (k * n)))"
  by (auto simp: init_def Manifold_init_def Let_def)

lemma str_0: "str 0 = ''0''"
  by (simp add: str_def str_nat.simps)

lemma str_m3: "str (- 3) = ''-3''"
  by (simp add: str_def str_nat.simps)

theorem init_error_witness:
  "init 0 1 = Inl (ValueError ''Need k >= 1. Value given was k = 0'')
   \<and> init 2 (- 3) = Inl (ValueError ''Need n >= 1. Value given was n = -3'')
   \<and> (\<exists>M. init 2 3 = Inr M \<and> m_dimension M = Some 6)"
  using init_error[of 0 1] init_error[of 2 "- 3"] init_error[of 2 3]
  by (auto simp: str_0 str_m3)

subsection \<open>The round trip of the exponential and the logarithm\<close>

text \<open>
  In exact arithmetic Moebius addition has the left cancellation law
  \<open>(-a) \<oplus> (a \<oplus> b) = b\<close> in the ball. With it, and again in exact arithmetic, the
  logarithm undoes the exponential at every tangent vector whose columns are all
  different from zero, and the exponential undoes the logarithm at every point \<open>q\<close>
  whose columns all differ from those of \<open>p\<close>, whatever the magnitude.
\<close>

lemma dot_uminus_left: "dot (map uminus xs) ys = - dot xs ys"
  unfolding dot_def
proof (induction xs arbitrary: ys)
  case Nil
  then show ?case by simp
next
  case (Cons x xs)
  then show ?case by (cases ys) simp_all
qed

lemma dot_uminus_right: "dot xs (map uminus ys) = - dot xs ys"
  by (simp add: dot_commute[of xs] dot_uminus_left)

lemma dot_uminus_uminus [simp]: "dot (map uminus xs) (map uminus xs) = dot xs xs"
  by (simp add: dot_uminus_left dot_uminus_right)

lemma dot_mob_right:
  assumes "length xs = length ys"
  shows "dot xs (mob xs ys)
         = ((1 + 2 * dot xs ys + dot ys ys) * dot xs xs + (1 - dot xs xs) * dot xs ys)
           / (1 + 2 * dot xs ys + dot xs xs * dot ys ys)"
proof -
  have "dot xs (mob xs ys)
        = (1 + 2 * dot xs ys + dot ys ys) / (1 + 2 * dot xs ys + dot xs xs * dot ys ys) * dot xs xs
          + (1 - dot xs xs) / (1 + 2 * dot xs ys + dot xs xs * dot ys ys) * dot xs ys"
    unfolding mob_axpby using assms by (intro dot_axpby_right) simp_all
  moreover have "A / D * p + B / D * q = (A * p + B * q) / D" for A B D p q :: real
    by (simp add: add_divide_distrib)
  ultimately show ?thesis by (simp only:)
qed

lemma mob_left_cancel:
  assumes l: "length xs = length ys" and xa: "dot xs xs < 1" and yb: "dot ys ys < 1"
  shows "mob (map uminus xs) (mob xs ys) = ys"
proof -
  define a where "a = dot xs xs"
  define b where "b = dot ys ys"
  define s where "s = dot xs ys"
  define D where "D = 1 + 2 * s + a * b"
  define A where "A = 1 + 2 * s + b"
  define c where "c = mob xs ys"
  have D: "0 < D" using mob_denom_pos[OF l xa yb] by (simp add: D_def a_def b_def s_def)
  have a1: "a < 1" using xa by (simp add: a_def)
  have nc: "dot c c = 1 - (1 - a) * (1 - b) / D"
    using dot_mob_self[OF l] D by (simp add: c_def D_def a_def b_def s_def)
  have sc: "dot (map uminus xs) c = - ((A * a + (1 - a) * s) / D)"
    using dot_mob_right[OF l] by (simp add: dot_uminus_left c_def A_def D_def a_def b_def s_def)
  define N where "N = A * a + (1 - a) * s"
  define M where "M = (1 - a) * (1 - b)"
  have "1 + 2 * (- (N / D)) + (1 - M / D) = (2 * D - 2 * N - M) / D"
    using D by (simp add: field_simps)
  moreover have "2 * D - 2 * N - M = A * (1 - a)"
    unfolding D_def N_def M_def A_def by (simp add: algebra_simps)
  ultimately have I1: "1 + 2 * dot (map uminus xs) c + dot c c = A * (1 - a) / D"
    unfolding sc nc N_def M_def by simp
  have "1 + 2 * (- (N / D)) + a * (1 - M / D) = (D - 2 * N + a * D - a * M) / D"
    using D by (simp add: field_simps)
  moreover have "D - 2 * N + a * D - a * M = (1 - a) * (1 - a)"
    unfolding D_def N_def M_def A_def by (simp add: algebra_simps)
  ultimately have I2: "1 + 2 * dot (map uminus xs) c + a * dot c c = (1 - a) * (1 - a) / D"
    unfolding sc nc N_def M_def by simp
  have lc: "length c = length ys" using l by (simp add: c_def)
  have "mob (map uminus xs) c ! i = ys ! i" if i: "i < length ys" for i
  proof -
    have ci: "c ! i = (xs ! i * A + ys ! i * (1 - a)) / D"
      using i l by (simp add: c_def mob_def A_def D_def a_def b_def s_def)
    have "mob (map uminus xs) c ! i
          = ((- (xs ! i)) * (A * (1 - a) / D) + (xs ! i * A + ys ! i * (1 - a)) / D * (1 - a))
            / ((1 - a) * (1 - a) / D)"
      using i l lc I1 I2 ci by (simp add: mob_def a_def)
    also have "(- (xs ! i)) * (A * (1 - a) / D) + (xs ! i * A + ys ! i * (1 - a)) / D * (1 - a)
               = ys ! i * ((1 - a) * (1 - a) / D)"
      using D by (simp add: field_simps)
    also have "ys ! i * ((1 - a) * (1 - a) / D) / ((1 - a) * (1 - a) / D) = ys ! i"
      using D a1 by simp
    finally show ?thesis .
  qed
  then show ?thesis using l lc by (simp add: list_eq_iff_nth_eq c_def)
qed

lemma mob_left_cancel_neg:
  assumes l: "length xs = length ys" and xa: "dot xs xs < 1" and yb: "dot ys ys < 1"
  shows "mob xs (mob (map uminus xs) ys) = ys"
proof -
  have "mob (map uminus (map uminus xs)) (mob (map uminus xs) ys) = ys"
    by (rule mob_left_cancel) (use assms in simp_all)
  then show ?thesis by (simp add: comp_def)
qed

lemma tanh_artanh_real:
  assumes "\<bar>t\<bar> < 1"
  shows "tanh (artanh t) = (t::real)"
proof -
  define y where "y = (1 + t) / (1 - t)"
  have y: "0 < y" using assms by (simp add: y_def)
  have "- 2 * artanh t = - ln y" by (simp add: artanh_def y_def)
  then have "exp (- 2 * artanh t) = 1 / y" using y by (simp add: exp_minus inverse_eq_divide)
  then have "tanh (artanh t) = (1 - 1 / y) / (1 + 1 / y)" by (simp only: tanh_real_altdef)
  also have "\<dots> = ((y - 1) / y) / ((y + 1) / y)"
    using y by (simp add: diff_divide_distrib add_divide_distrib)
  also have "\<dots> = (y - 1) / (y + 1)" using y by simp
  also have "\<dots> = t" using assms unfolding y_def by (simp add: field_simps)
  finally show ?thesis .
qed

lemma artanh_pos:
  assumes "0 < t" "t < (1::real)"
  shows "0 < artanh t"
proof -
  have "0 < tanh (artanh t)" using assms by (simp add: tanh_artanh_real)
  then show ?thesis by simp
qed

lemma dot_scale:
  "dot (map (\<lambda>v. v * c) vs) (map (\<lambda>v. v * c) vs) = c * c * dot vs vs"
  unfolding dot_def by (induction vs) (simp_all add: algebra_simps)

lemma exp_col_Fin:
  assumes "dot ps ps < 1" "dot vs vs \<noteq> 0"
  shows "exp_col (map Fin ps) (map Fin vs)
         = mobius_addition_col (map Fin ps)
             (map Fin (map (\<lambda>v. v * (tanh (sqrt (dot vs vs) / (1 - dot ps ps)) / sqrt (dot vs vs))) vs))"
proof -
  define r where "r = sqrt (dot vs vs)"
  have r: "r \<noteq> 0" using assms(2) by (simp add: r_def)
  have a: "1 - dot ps ps \<noteq> 0" using assms(1) by simp
  have "np_divide_where (np_tanh (Fin r / (Fin 1 - Fin (dot ps ps)))) (Fin r)
          (zeros_like_col (map Fin vs)) (Fin r \<noteq> Fin 0)
        = map (\<lambda>_. Fin (tanh (r / (1 - dot ps ps)) / r)) vs"
    using r a by (simp add: np_divide_where_def zeros_like_col_def)
  moreover have "mul (map Fin vs) (map (\<lambda>_. Fin c) vs) = map Fin (map (\<lambda>v. v * c) vs)" for c
    by (simp add: mul_def list_eq_iff_nth_eq)
  ultimately show ?thesis
    by (simp only: exp_col_def Let_def linalg_norm_Fin np_sum_mul_Fin r_def)
qed

lemma log_col_Fin:
  assumes "length ps = length qs" "dot ps ps < 1" "dot qs qs < 1"
    and "dot (mob (map uminus ps) qs) (mob (map uminus ps) qs) \<noteq> 0"
  shows "log_col (map Fin ps) (map Fin qs)
         = map Fin (map (\<lambda>w. (1 - dot ps ps)
                              * artanh (sqrt (dot (mob (map uminus ps) qs) (mob (map uminus ps) qs)))
                              * w / sqrt (dot (mob (map uminus ps) qs) (mob (map uminus ps) qs)))
                        (mob (map uminus ps) qs))"
proof -
  define ws where "ws = mob (map uminus ps) qs"
  define t where "t = sqrt (dot ws ws)"
  have l: "length (map uminus ps) = length qs" using assms(1) by simp
  have n: "dot (map uminus ps) (map uminus ps) < 1" using assms(2) by simp
  have D: "1 + 2 * dot (map uminus ps) qs + dot (map uminus ps) (map uminus ps) * dot qs qs \<noteq> 0"
    using mob_denom_pos[OF l n assms(3)] by simp
  have W: "mobius_addition_col (neg (map Fin ps)) (map Fin qs) = map Fin ws"
    unfolding neg_Fin ws_def by (rule mobius_addition_col_Fin[OF D])
  have "dot ws ws < 1" unfolding ws_def by (rule mob_closed[OF l n assms(3)])
  then have t1: "\<bar>t\<bar> < 1" by (simp add: t_def dot_nonneg)
  have t0: "t \<noteq> 0" using assms(4) by (simp add: t_def ws_def)
  have "log_col (map Fin ps) (map Fin qs)
        = map (\<lambda>w. (Fin 1 - Fin (dot ps ps)) * np_arctanh (Fin t) * w / Fin t) (map Fin ws)"
    by (simp only: log_col_def Let_def W linalg_norm_Fin np_sum_mul_Fin t_def)
  also have "\<dots> = map Fin (map (\<lambda>w. (1 - dot ps ps) * artanh t * w / t) ws)"
    using t0 t1 by simp
  finally show ?thesis by (simp only: t_def ws_def)
qed

lemma log_exp_col:
  assumes l: "length vs = length ps" and pa: "dot ps ps < 1" and v0: "dot vs vs \<noteq> 0"
  shows "log_col (map Fin ps) (exp_col (map Fin ps) (map Fin vs)) = map Fin vs"
proof -
  define a where "a = dot ps ps"
  define r where "r = sqrt (dot vs vs)"
  define t where "t = tanh (r / (1 - a))"
  define ws where "ws = map (\<lambda>v. v * (t / r)) vs"
  define zs where "zs = mob ps ws"
  have a1: "0 < 1 - a" using pa by (simp add: a_def)
  have r0: "0 < r" using v0 dot_nonneg[of vs] by (simp add: r_def)
  have rr: "dot vs vs = r * r" using dot_nonneg[of vs] by (simp add: r_def)
  have t0: "0 < t" using a1 r0 by (simp add: t_def)
  have t1: "t < 1" by (simp add: t_def tanh_real_lt_1)
  have ww: "dot ws ws = t * t" unfolding ws_def dot_scale rr using r0 by simp
  have "t * t < 1 * 1" using t0 t1 by (intro mult_strict_mono) simp_all
  then have tt: "t * t < 1" by simp
  have w1: "dot ws ws < 1" using ww tt by simp
  have w0: "dot ws ws \<noteq> 0" using ww t0 by simp
  have st: "sqrt (dot ws ws) = t" using ww t0 by (simp add: real_sqrt_mult_self)
  have lw: "length ps = length ws" using l by (simp add: ws_def)
  have D: "1 + 2 * dot ps ws + dot ps ps * dot ws ws \<noteq> 0"
    using mob_denom_pos[OF lw pa w1] by simp
  have e: "exp_col (map Fin ps) (map Fin vs) = map Fin zs"
    unfolding exp_col_Fin[OF pa v0] zs_def ws_def t_def r_def a_def
    by (rule mobius_addition_col_Fin[OF D[unfolded ws_def t_def r_def a_def]])
  have z1: "dot zs zs < 1" unfolding zs_def by (rule mob_closed[OF lw pa w1])
  have lz: "length ps = length zs" using lw by (simp add: zs_def)
  have c: "mob (map uminus ps) zs = ws" unfolding zs_def by (rule mob_left_cancel[OF lw pa w1])
  have "log_col (map Fin ps) (map Fin zs)
        = map Fin (map (\<lambda>w. (1 - a) * artanh t * w / t) ws)"
    using log_col_Fin[OF lz pa z1] w0 unfolding c st a_def by simp
  also have "artanh t = r / (1 - a)" by (simp add: t_def artanh_tanh_real)
  also have "map (\<lambda>w. (1 - a) * (r / (1 - a)) * w / t) ws = vs"
    unfolding ws_def using a1 r0 t0 by (simp add: list_eq_iff_nth_eq)
  finally show ?thesis by (simp only: e)
qed

lemma mob_eq_zero_imp:
  assumes l: "length ps = length qs" and pa: "dot ps ps < 1" and qa: "dot qs qs < 1"
    and z: "dot (mob (map uminus ps) qs) (mob (map uminus ps) qs) = 0"
  shows "ps = qs"
proof -
  have "\<forall>x\<in>set (mob (map uminus ps) qs). x = 0" using z by (simp only: dot_eq_0_iff)
  then have "mob (map uminus ps) qs = map (\<lambda>_. 0) ps"
    using l by (simp add: list_eq_iff_nth_eq)
  then have "mob ps (mob (map uminus ps) qs) = ps" by (simp only: mob_zero_right)
  then show ?thesis by (simp only: mob_left_cancel_neg[OF l pa qa])
qed

lemma exp_log_col:
  assumes l: "length ps = length qs" and pa: "dot ps ps < 1" and qa: "dot qs qs < 1"
    and ne: "ps \<noteq> qs"
  shows "exp_col (map Fin ps) (log_col (map Fin ps) (map Fin qs)) = map Fin qs"
proof -
  define a where "a = dot ps ps"
  define ws where "ws = mob (map uminus ps) qs"
  define t where "t = sqrt (dot ws ws)"
  define c where "c = (1 - a) * artanh t / t"
  define us where "us = map (\<lambda>w. w * c) ws"
  have a1: "0 < 1 - a" using pa by (simp add: a_def)
  have l': "length (map uminus ps) = length qs" using l by simp
  have n: "dot (map uminus ps) (map uminus ps) < 1" using pa by simp
  have w1: "dot ws ws < 1" unfolding ws_def by (rule mob_closed[OF l' n qa])
  have w0: "dot ws ws \<noteq> 0" using mob_eq_zero_imp[OF l pa qa] ne unfolding ws_def by blast
  have t0: "0 < t" using w0 dot_nonneg[of ws] by (simp add: t_def)
  have t1: "t < 1" using w1 by (simp add: t_def)
  have tt: "dot ws ws = t * t" using dot_nonneg[of ws] by (simp add: t_def)
  have at: "0 < artanh t" using t0 t1 by (rule artanh_pos)
  have c0: "0 < c" using a1 at t0 by (simp add: c_def)
  have lg: "log_col (map Fin ps) (map Fin qs) = map Fin us"
    using log_col_Fin[OF l pa qa] w0
    unfolding ws_def[symmetric] t_def[symmetric] a_def[symmetric] us_def c_def
    by (simp add: mult.commute)
  have uu: "dot us us = (c * t) * (c * t)" unfolding us_def dot_scale tt by simp
  have u0: "dot us us \<noteq> 0" using uu c0 t0 by simp
  have su: "sqrt (dot us us) = c * t" using uu c0 t0 by (simp add: real_sqrt_mult_self)
  have ct: "c * t = (1 - a) * artanh t" using t0 by (simp add: c_def)
  have th: "tanh (c * t / (1 - a)) = t"
    using a1 t0 t1 by (simp add: ct tanh_artanh_real)
  have "map (\<lambda>u. u * (t / (c * t))) us = ws"
    unfolding us_def using c0 t0 by (simp add: list_eq_iff_nth_eq)
  then have "exp_col (map Fin ps) (map Fin us) = mobius_addition_col (map Fin ps) (map Fin ws)"
    unfolding exp_col_Fin[OF pa u0] su a_def[symmetric] th by simp
  also have "\<dots> = map Fin (mob ps ws)"
  proof (rule mobius_addition_col_Fin)
    have "length ps = length ws" using l by (simp add: ws_def)
    from mob_denom_pos[OF this pa w1]
    show "1 + 2 * dot ps ws + dot ps ps * dot ws ws \<noteq> 0" by simp
  qed
  also have "mob ps ws = qs" unfolding ws_def by (rule mob_left_cancel_neg[OF l pa qa])
  finally show ?thesis by (simp only: lg)
qed

lemma finite_col_nonzero:
  assumes "map Fin vs \<noteq> zeros_like_col (map Fin vs)"
  shows "dot vs vs \<noteq> 0"
  using assms zeros_like_col_iff[of vs] dot_eq_0_iff[of vs] by blast

lemma log_exp_round_trip:
  assumes "is_point k n p" "is_array k n v" "\<forall>j<n. v ! j \<noteq> zeros_like_col (v ! j)"
  shows "log_map p (exp_map p v) = v"
proof -
  have lp: "length p = n" and lv: "length v = n"
    using assms by (simp_all add: is_point_def is_array_def)
  have "log_col (p ! j) (exp_col (p ! j) (v ! j)) = v ! j" if j: "j < n" for j
  proof -
    from is_point_nth[OF assms(1) j] obtain ps
      where c: "p ! j = map Fin ps" "dot ps ps < 1" "length ps = k"
      by (auto elim: valid_colE)
    from is_array_nth[OF assms(2) j] obtain vs where d: "v ! j = map Fin vs" "length vs = k"
      by (auto elim: finite_colE)
    have "dot vs vs \<noteq> 0" using assms(3) j d(1) finite_col_nonzero by metis
    then show ?thesis unfolding c(1) d(1) using c(2,3) d(2) by (intro log_exp_col) simp_all
  qed
  then show ?thesis using lp lv by (simp add: log_map_def exp_map_def list_eq_iff_nth_eq)
qed

lemma exp_log_round_trip:
  assumes "is_point k n p" "is_point k n q" "\<forall>j<n. p ! j \<noteq> q ! j"
  shows "exp_map p (log_map p q) = q"
proof -
  have lp: "length p = n" and lq: "length q = n"
    using assms by (simp_all add: is_point_def)
  have "exp_col (p ! j) (log_col (p ! j) (q ! j)) = q ! j" if j: "j < n" for j
  proof -
    from is_point_nth[OF assms(1) j] obtain ps
      where c: "p ! j = map Fin ps" "dot ps ps < 1" "length ps = k"
      by (auto elim: valid_colE)
    from is_point_nth[OF assms(2) j] obtain qs
      where d: "q ! j = map Fin qs" "dot qs qs < 1" "length qs = k"
      by (auto elim: valid_colE)
    have "ps \<noteq> qs" using assms(3) j c(1) d(1) by metis
    then show ?thesis unfolding c(1) d(1) using c(2,3) d(2,3) by (intro exp_log_col) simp_all
  qed
  then show ?thesis using lp lq by (simp add: log_map_def exp_map_def list_eq_iff_nth_eq)
qed

subsection \<open>The logarithm at the base point\<close>

text \<open>
  In exact arithmetic, at a valid point \<open>p\<close> the Moebius sum of \<open>-p\<close> and \<open>p\<close> is the
  zero vector, so \<^verbatim>\<open>norm_W\<close> is 0 and every entry of \<open>log(p, p)\<close> is the quotient
  \<open>0 / 0\<close>. At the origin every step is exact on doubles as well.
\<close>

lemma mob_uminus_self:
  assumes "dot xs xs < 1"
  shows "mob (map uminus xs) xs = map (\<lambda>_. 0) xs"
  by (simp add: mob_def list_eq_iff_nth_eq dot_uminus_left dot_uminus_right algebra_simps)

lemma log_col_self_nan:
  assumes "valid_col p"
  shows "log_col p p = map (\<lambda>_. NaN) p"
proof -
  from assms obtain xs where p: "p = map Fin xs" "dot xs xs < 1" by (rule valid_colE)
  have "1 + 2 * dot (map uminus xs) xs + dot (map uminus xs) (map uminus xs) * dot xs xs
        = (1 - dot xs xs)\<^sup>2"
    by (simp add: dot_uminus_left dot_uminus_right power2_eq_square algebra_simps)
  then have D: "1 + 2 * dot (map uminus xs) xs + dot (map uminus xs) (map uminus xs) * dot xs xs \<noteq> 0"
    using p(2) by simp
  have W: "mobius_addition_col (neg p) p = zeros_like_col p"
    unfolding p(1) neg_Fin mobius_addition_col_Fin[OF D] mob_uminus_self[OF p(2)]
    by (simp add: zeros_like_col_def)
  show ?thesis
    unfolding log_col_def W Let_def linalg_norm_zeros
    by (simp add: p(1) zeros_like_col_def np_sum_mul_Fin inf_of_sign_def)
qed

lemma log_self_nan:
  assumes "is_point k n p"
  shows "log_map p p = map (map (\<lambda>_. NaN)) p"
proof -
  have "log_col c c = map (\<lambda>_. NaN) c" if "c \<in> set p" for c
    using that assms by (intro log_col_self_nan) (simp add: is_point_def list_all_iff)
  then show ?thesis by (simp add: log_map_def list_eq_iff_nth_eq)
qed

lemmas eval_defs = log_map_def log_col_def exp_map_def exp_col_def mobius_addition_def
  mobius_addition_col_def linalg_norm_def mul_def neg_def np_sum_def zero_vector_def zeros_like_def
  zeros_like_col_def np_divide_where_def inf_of_sign_def Let_def

text \<open>
  C1. The claim is that \<open>log(p, p) = zero_vector(p)\<close> at every valid point. At the
  origin of the ball of dimension 2 the method returns \<open>[nan, nan]\<close>, while the zero
  vector is \<open>[0, 0]\<close>.
\<close>

theorem log_at_origin_is_nan:
  "log_map [[Fin 0, Fin 0]] [[Fin 0, Fin 0]] = [[NaN, NaN]]
   \<and> zero_vector [[Fin 0, Fin 0]] = [[Fin 0, Fin 0]]"
  by (simp add: eval_defs)

text \<open>
  C2. The claim is the round trip \<open>log(p, exp(p, v)) = v\<close> and \<open>exp(p, log(p, q)) = q\<close>.
  At \<open>p = q = [0, 0]\<close> and \<open>v = [0, 0]\<close>, \<open>exp(p, v)\<close> is \<open>p\<close>, and both round trips
  return \<open>[nan, nan]\<close>.
\<close>

theorem round_trip_at_origin_is_nan:
  "exp_map [[Fin 0, Fin 0]] [[Fin 0, Fin 0]] = [[Fin 0, Fin 0]]
   \<and> log_map [[Fin 0, Fin 0]] (exp_map [[Fin 0, Fin 0]] [[Fin 0, Fin 0]]) = [[NaN, NaN]]
   \<and> exp_map [[Fin 0, Fin 0]] (log_map [[Fin 0, Fin 0]] [[Fin 0, Fin 0]]) = [[NaN, NaN]]"
  by (simp add: eval_defs)

section \<open>Properties on binary64\<close>

subsection \<open>Rounding\<close>


lemma round_half_even_of_int [simp]: "round_half_even (of_int k) = k"
  by (simp add: round_half_even_def)

lemma round_half_even_nearest:
  assumes "\<bar>x - of_int m\<bar> < 1/2"
  shows "round_half_even x = m"
proof -
  consider "of_int m \<le> x" | "x < of_int m" by linarith
  then show ?thesis
  proof cases
    case 1
    then have "\<lfloor>x\<rfloor> = m" using assms by (intro floor_unique) linarith+
    then show ?thesis using assms 1 by (simp add: round_half_even_def)
  next
    case 2
    then have "\<lfloor>x\<rfloor> = m - 1" using assms by (intro floor_unique) auto
    then show ?thesis using assms 2 by (simp add: round_half_even_def Let_def)
  qed
qed

lemma round_half_even_tie_up:
  assumes "x = of_int m - 1/2" "even m"
  shows "round_half_even x = m"
proof -
  have "\<lfloor>x\<rfloor> = m - 1" using assms by (intro floor_unique) simp_all
  then show ?thesis using assms by (simp add: round_half_even_def Let_def)
qed

lemma round_half_even_tie_down:
  assumes "x = of_int m + 1/2" "even m"
  shows "round_half_even x = m"
proof -
  have "\<lfloor>x\<rfloor> = m" using assms by (intro floor_unique) simp_all
  then show ?thesis using assms by (simp add: round_half_even_def Let_def)
qed

lemma round_half_even_lower: "real_of_int \<lfloor>x\<rfloor> \<le> of_int (round_half_even x)"
  by (simp add: round_half_even_def Let_def)

lemma round_half_even_upper: "round_half_even x \<le> \<lfloor>x\<rfloor> + 1"
  by (simp add: round_half_even_def Let_def)

lemma round_half_even_ge:
  assumes "of_int k \<le> x"
  shows "k \<le> round_half_even x"
proof -
  have "k \<le> \<lfloor>x\<rfloor>" using assms by (simp add: le_floor_iff)
  moreover have "\<lfloor>x\<rfloor> \<le> round_half_even x" by (simp add: round_half_even_def Let_def)
  ultimately show ?thesis by linarith
qed

lemma round_half_even_le:
  assumes "x \<le> of_int k"
  shows "round_half_even x \<le> k"
proof (cases "x = of_int k")
  case True
  then show ?thesis by simp
next
  case False
  then have "x < of_int k" using assms by simp
  then have "\<lfloor>x\<rfloor> < k" by (simp add: floor_less_iff)
  then show ?thesis using round_half_even_upper[of x] by linarith
qed

lemma floor_log2_bounds:
  assumes "0 < x"
  shows "2 powi \<lfloor>log 2 x\<rfloor> \<le> x \<and> x < 2 powi (\<lfloor>log 2 x\<rfloor> + 1)"
proof -
  have "2 powr (of_int \<lfloor>log 2 x\<rfloor>) \<le> x \<and> x < 2 powr (of_int \<lfloor>log 2 x\<rfloor> + 1)"
    using floor_log_eq_powr_iff[of x 2 "\<lfloor>log 2 x\<rfloor>"] assms by simp
  moreover have "(2::real) powr (of_int k) = 2 powi k" for k
    by (simp add: powr_real_of_int')
  moreover have "of_int \<lfloor>log 2 x\<rfloor> + 1 = (of_int (\<lfloor>log 2 x\<rfloor> + 1) :: real)" by simp
  ultimately show ?thesis by metis
qed

lemma floor_log2_eq:
  assumes "2 powi e \<le> x" "x < 2 powi (e + 1)"
  shows "\<lfloor>log 2 x\<rfloor> = e"
proof -
  have "0 < (2::real) powi e" by simp
  then have x: "0 < x" using assms(1) by linarith
  have p: "(2::real) powr (of_int k) = 2 powi k" for k
    by (simp add: powr_real_of_int')
  have "2 powr (of_int e) \<le> x \<and> x < 2 powr (of_int e + 1)"
    using assms p[of e] p[of "e + 1"] by simp
  then show ?thesis using floor_log_eq_powr_iff[of x 2 e] x by simp
qed

lemma powi_split: "(2::real) powi (e + k) = 2 powi (e - 52) * 2 powi (k + 52)"
proof -
  have "(2::real) powi ((e - 52) + (k + 52)) = 2 powi (e - 52) * 2 powi (k + 52)"
    by (rule power_int_add) simp
  then show ?thesis by (simp add: algebra_simps)
qed

lemma binary64_pos_raw:
  assumes x: "0 < x"
  defines "e \<equiv> max \<lfloor>log 2 x\<rfloor> (- 1022)"
  defines "q \<equiv> 2 powi (e - 52)"
  defines "m \<equiv> round_half_even (x / q)"
  shows "binary64 x = (if 2 powi 1024 \<le> of_int m * q then PInf else Fin (of_int m * q))"
    and "0 \<le> m" and "m \<le> 2 ^ 53"
    and "- 1022 \<le> \<lfloor>log 2 x\<rfloor> \<Longrightarrow> 2 ^ 52 \<le> m"
proof -
  have q: "0 < q" by (simp add: q_def)
  have "0 \<le> x / q" using x q by simp
  then show m0: "0 \<le> m" unfolding m_def using round_half_even_ge[of 0 "x / q"] by simp
  have "x < 2 powi (\<lfloor>log 2 x\<rfloor> + 1)" using floor_log2_bounds[OF x] by simp
  also have "\<dots> \<le> 2 powi (e + 1)" by (intro power_int_increasing) (simp_all add: e_def)
  also have "\<dots> = q * 2 ^ 53" using powi_split[of e 1] by (simp add: q_def)
  finally have "x / q < 2 ^ 53" using q by (simp add: pos_divide_less_eq mult.commute)
  then have "x / q \<le> of_int (2 ^ 53)" by simp
  then show "m \<le> 2 ^ 53" unfolding m_def by (rule round_half_even_le)
  have "\<bar>of_int m * q\<bar> = of_int m * q" using m0 q by simp
  then show "binary64 x = (if 2 powi 1024 \<le> of_int m * q then PInf else Fin (of_int m * q))"
    using x by (simp add: binary64_def Let_def e_def[symmetric] q_def[symmetric] m_def[symmetric]
        inf_of_sign_def)
  show "2 ^ 52 \<le> m" if "- 1022 \<le> \<lfloor>log 2 x\<rfloor>"
  proof -
    have e: "e = \<lfloor>log 2 x\<rfloor>" using that by (simp add: e_def)
    have "q * 2 ^ 52 = 2 powi e" using powi_split[of e 0] by (simp add: q_def)
    also have "\<dots> \<le> x" using floor_log2_bounds[OF x] e by simp
    finally have "of_int (2 ^ 52) \<le> x / q" using q by (simp add: pos_le_divide_eq mult.commute)
    then show ?thesis unfolding m_def by (rule round_half_even_ge)
  qed
qed

lemma double_val_0 [simp]: "double_val 0"
  unfolding double_val_def by (rule exI[of _ 0], rule exI[of _ 0]) simp

lemma binary64_0 [simp]: "binary64 0 = Fin 0"
  by (simp add: binary64_def)

lemma binary64_nonneg:
  assumes "0 \<le> x"
  shows "nn (binary64 x)"
proof (cases "x = 0")
  case True
  then show ?thesis by simp
next
  case False
  then have x: "0 < x" using assms by simp
  define e where "e = max \<lfloor>log 2 x\<rfloor> (- 1022)"
  define m where "m = round_half_even (x / 2 powi (e - 52))"
  note r = binary64_pos_raw[OF x, folded e_def m_def]
  have "double_val (of_int m * 2 powi (e - 52))"
    unfolding double_val_def using r(2,3)
    by - (rule exI[of _ m], rule exI[of _ "e - 52"], simp add: e_def)
  moreover have "0 \<le> of_int m * (2::real) powi (e - 52)" using r(2) by simp
  ultimately show ?thesis by (simp add: r(1))
qed

lemma binary64_normal:
  assumes x: "0 < x" and e: "- 1022 \<le> \<lfloor>log 2 x\<rfloor>" "\<lfloor>log 2 x\<rfloor> \<le> 1022"
  shows "\<exists>y. binary64 x = Fin y \<and> 2 powi \<lfloor>log 2 x\<rfloor> \<le> y \<and> y \<le> 2 powi (\<lfloor>log 2 x\<rfloor> + 1)
             \<and> double_val y"
proof -
  define e where "e = \<lfloor>log 2 x\<rfloor>"
  define m where "m = round_half_even (x / 2 powi (e - 52))"
  have me: "max \<lfloor>log 2 x\<rfloor> (- 1022) = e" using assms by (simp add: e_def)
  note r = binary64_pos_raw[OF x, unfolded me, folded m_def]
  have m52: "2 ^ 52 \<le> m" using r(4) assms by simp
  define y where "y = of_int m * (2::real) powi (e - 52)"
  have q: "0 < (2::real) powi (e - 52)" by simp
  have "2 powi e = 2 ^ 52 * (2::real) powi (e - 52)" using powi_split[of e 0] by simp
  also have "\<dots> \<le> y" unfolding y_def using m52 q by (intro mult_right_mono) (simp_all add: of_int_le_iff[of "2 ^ 52" m, simplified])
  finally have lo: "2 powi e \<le> y" .
  have "y \<le> 2 ^ 53 * (2::real) powi (e - 52)"
    unfolding y_def using r(3) q by (intro mult_right_mono) (simp_all add: of_int_le_iff[of m "2 ^ 53", simplified])
  also have "\<dots> = 2 powi (e + 1)" using powi_split[of e 1] by simp
  finally have hi: "y \<le> 2 powi (e + 1)" .
  have "(2::real) powi (e + 1) \<le> 2 powi 1023"
    using assms by (intro power_int_increasing) (simp_all add: e_def)
  also have "\<dots> < (2::real) powi 1024" by (intro power_int_strict_increasing) simp_all
  finally have "\<not> 2 powi 1024 \<le> y" using hi by simp
  then have "binary64 x = Fin y" using r(1) by (simp add: y_def)
  moreover have j: "- 1074 \<le> e - 52" using e(1) unfolding e_def by linarith
  have "double_val y"
    unfolding double_val_def y_def using r(2,3) j
    by - (rule exI[of _ m], rule exI[of _ "e - 52"], simp)
  ultimately show ?thesis using lo hi unfolding e_def by blast
qed

lemma floor_log2_mono:
  assumes "0 < x" "x \<le> y"
  shows "\<lfloor>log 2 x\<rfloor> \<le> \<lfloor>log 2 y\<rfloor>"
  using assms by (intro floor_mono) simp

lemma floor_log2_powi [simp]: "\<lfloor>log 2 (2 powi k)\<rfloor> = k"
  by (rule floor_log2_eq) (simp_all add: power_int_strict_increasing)

lemma binary64_ge_1:
  assumes "1 \<le> x"
  shows "\<not> fless (binary64 x) (Fin 1)"
proof -
  have x: "0 < x" using assms by simp
  define e where "e = \<lfloor>log 2 x\<rfloor>"
  have e0: "0 \<le> e" using floor_log2_mono[of 1 x] assms by (simp add: e_def)
  define m where "m = round_half_even (x / 2 powi (e - 52))"
  have me: "max \<lfloor>log 2 x\<rfloor> (- 1022) = e" using e0 by (simp add: e_def)
  note r = binary64_pos_raw[OF x, unfolded me, folded m_def]
  have m52: "2 ^ 52 \<le> m" using r(4) e0 by (simp add: e_def)
  have "(1::real) = 2 powi 0" by simp
  also have "\<dots> \<le> 2 powi e" using e0 by (intro power_int_increasing) simp_all
  also have "\<dots> = 2 ^ 52 * (2::real) powi (e - 52)" using powi_split[of e 0] by simp
  also have "\<dots> \<le> of_int m * (2::real) powi (e - 52)"
    using m52 by (intro mult_right_mono) (simp_all add: of_int_le_iff[of "2 ^ 52" m, simplified])
  finally show ?thesis by (simp add: r(1))
qed

lemma double_val_gap:
  assumes "double_val s" "s < 1"
  shows "2 powi (- 53) \<le> 1 - s"
proof -
  from assms(1) obtain m j where s: "s = of_int m * 2 powi j" and m: "\<bar>m\<bar> \<le> 2 ^ 53"
    unfolding double_val_def by blast
  define P :: int where "P = 2 ^ 53"
  define u :: real where "u = 2 powi (- 53)"
  have u: "0 < u" by (simp add: u_def)
  have Pu: "of_int P * u = 1"
  proof -
    have "of_int P = (2::real) powi 53" by (simp add: P_def)
    moreover have "(2::real) powi (53 + (- 53)) = 2 powi 53 * 2 powi (- 53)"
      by (rule power_int_add) simp
    ultimately show ?thesis unfolding u_def by simp
  qed
  have mP: "\<bar>m\<bar> \<le> P" using m by (simp add: P_def)
  show ?thesis
  proof (cases "- 53 \<le> j")
    case True
    define M where "M = m * 2 ^ nat (j + 53)"
    have "(2::real) powi j = 2 powi ((j + 53) + (- 53))" by simp
    also have "\<dots> = 2 powi (j + 53) * u"
      unfolding u_def by (rule power_int_add) simp
    also have "(2::real) powi (j + 53) = of_int (2 ^ nat (j + 53))"
      using True by (simp add: power_int_nonneg_exp)
    finally have s': "s = of_int M * u" unfolding s M_def by simp
    have "of_int M * u < of_int P * u" using assms(2) s' Pu by simp
    then have "real_of_int M < of_int P" using u by (simp only: mult_less_cancel_right_pos)
    then have "M \<le> P - 1" by simp
    then have "real_of_int M \<le> of_int P - 1" by (metis of_int_le_iff of_int_diff of_int_1)
    then have "of_int M * u \<le> (of_int P - 1) * u" using u by (intro mult_right_mono) simp_all
    also have "\<dots> = 1 - u" using Pu by (simp add: algebra_simps)
    finally show ?thesis using s' by (simp add: u_def)
  next
    case False
    then have j: "j \<le> - 54" by simp
    have "s \<le> \<bar>real_of_int m\<bar> * 2 powi j" unfolding s by (intro mult_right_mono) simp_all
    also have "\<dots> \<le> of_int P * 2 powi j"
      using mP by (intro mult_right_mono) (simp_all flip: of_int_abs)
    also have "(2::real) powi j \<le> 2 powi (- 54)" using j by (intro power_int_increasing) simp_all
    finally have "s \<le> of_int P * 2 powi (- 54)" by (simp add: P_def)
    also have "(2::real) powi (- 54) = 2 powi ((- 53) + (- 1))" by simp
    also have "\<dots> = u * (1/2)" unfolding u_def by (subst power_int_add) simp_all
    finally have "s \<le> 1/2" using Pu by (simp add: algebra_simps)
    moreover have "u \<le> 1/2"
    proof -
      have "(2::real) powi (- 53) \<le> 2 powi (- 1)" by (intro power_int_increasing) simp_all
      then show ?thesis by (simp add: u_def)
    qed
    ultimately show ?thesis unfolding u_def by linarith
  qed
qed

lemma binary64_finite_eq:
  assumes x: "0 < x" and e: "2 powi e \<le> x" "x < 2 powi (e + 1)" "- 1022 \<le> e" "e \<le> 1022"
    and m: "round_half_even (x / 2 powi (e - 52)) = m"
    and y: "y = of_int m * 2 powi (e - 52)"
  shows "binary64 x = Fin y"
proof -
  have fl: "\<lfloor>log 2 x\<rfloor> = e" using e(1,2) by (rule floor_log2_eq)
  have me: "max \<lfloor>log 2 x\<rfloor> (- 1022) = e" using e(3) fl by simp
  from binary64_normal[OF x] fl e(3,4) obtain z where z: "binary64 x = Fin z" by auto
  from binary64_pos_raw(1)[OF x, unfolded me m] z show ?thesis
    by (simp add: y split: if_splits)
qed

lemma binary64_nearest:
  assumes "2 powi e \<le> x" "x < 2 powi (e + 1)" "- 1022 \<le> e" "e \<le> 1022"
    and "y = of_int m * 2 powi (e - 52)"
    and "\<bar>x - y\<bar> < 2 powi (e - 52) / 2"
  shows "binary64 x = Fin y"
proof -
  have "0 < (2::real) powi e" by simp
  then have x: "0 < x" using assms(1) by linarith
  define q :: real where "q = 2 powi (e - 52)"
  have q: "0 < q" by (simp add: q_def)
  have "x / q - of_int m = (x - y) / q" using q by (simp add: assms(5) q_def field_simps)
  then have "\<bar>x / q - of_int m\<bar> = \<bar>x - y\<bar> / q" using q by simp
  also have "\<dots> < 1 / 2" using assms(6) q by (simp add: q_def[symmetric] pos_divide_less_eq)
  finally have "round_half_even (x / q) = m" by (rule round_half_even_nearest)
  then show ?thesis
    using binary64_finite_eq[OF x assms(1-4) _ assms(5)] by (simp add: q_def)
qed

lemma binary64_tie:
  assumes "2 powi e \<le> x" "x < 2 powi (e + 1)" "- 1022 \<le> e" "e \<le> 1022"
    and "y = of_int m * 2 powi (e - 52)"
    and "x - y = 2 powi (e - 52) / 2 \<or> y - x = 2 powi (e - 52) / 2"
    and "even m"
  shows "binary64 x = Fin y"
proof -
  have "0 < (2::real) powi e" by simp
  then have x: "0 < x" using assms(1) by linarith
  define q :: real where "q = 2 powi (e - 52)"
  have q: "0 < q" by (simp add: q_def)
  have d: "x / q - of_int m = (x - y) / q" using q by (simp add: assms(5) q_def field_simps)
  from assms(6) have "round_half_even (x / q) = m"
  proof
    assume "x - y = 2 powi (e - 52) / 2"
    then have "x / q = of_int m + 1 / 2" using d q by (simp add: q_def[symmetric] field_simps)
    then show ?thesis using assms(7) by (rule round_half_even_tie_down)
  next
    assume "y - x = 2 powi (e - 52) / 2"
    then have "x / q = of_int m - 1 / 2" using d q by (simp add: q_def[symmetric] field_simps)
    then show ?thesis using assms(7) by (rule round_half_even_tie_up)
  qed
  then show ?thesis
    using binary64_finite_eq[OF x assms(1-4) _ assms(5)] by (simp add: q_def)
qed

lemma binary64_1 [simp]: "binary64 1 = Fin 1"
  by (rule binary64_nearest[where e = 0 and m = "2 ^ 52"]) simp_all

lemma binary64_2 [simp]: "binary64 2 = Fin 2"
  by (rule binary64_nearest[where e = 1 and m = "2 ^ 52"]) simp_all

subsection \<open>The conformal factor on binary64\<close>

lemma nn_rnd_add:
  assumes "nn a" "nn b"
  shows "nn (rnd (a + b))"
proof (cases a)
  case (Fin s)
  show ?thesis
  proof (cases b)
    case (Fin v)
    then show ?thesis using assms \<open>a = Fin s\<close> by (simp add: binary64_nonneg)
  qed (use assms \<open>a = Fin s\<close> in simp_all)
next
  case PInf
  then show ?thesis using assms by (cases b) simp_all
qed (use assms in simp_all)

lemma nn_foldl:
  assumes "nn acc" "list_all nn xs"
  shows "nn (foldl (\<lambda>s x. rnd (s + x)) acc xs)"
  using assms by (induction xs arbitrary: acc) (simp_all add: nn_rnd_add)

lemma nn_np_sum64: "list_all nn xs \<Longrightarrow> nn (np_sum64 xs)"
  unfolding np_sum64_def by (rule nn_foldl) simp_all

lemma nn_squares:
  assumes "list_all is_Fin c"
  shows "list_all nn (mul64 c c)"
proof -
  have "nn (rnd (x * x))" if "is_Fin x" for x
    using that by (cases x) (simp_all add: binary64_nonneg)
  then show ?thesis using assms by (induction c) (simp_all add: mul64_def)
qed

lemma valid_col64_sum:
  assumes "valid_col64 c"
  obtains s where "np_sum64 (mul64 c c) = Fin s" "0 \<le> s" "s < 1" "double_val s"
proof -
  from assms have f: "list_all is_Fin c" and n: "fless (linalg_norm64 c) (Fin 1)"
    by (simp_all add: valid_col64_def)
  have S: "nn (np_sum64 (mul64 c c))" using f by (intro nn_np_sum64 nn_squares)
  show thesis
  proof (cases "np_sum64 (mul64 c c)")
    case (Fin s)
    then have s: "0 \<le> s" "double_val s" using S by simp_all
    have "s < 1"
    proof (rule ccontr)
      assume "\<not> s < 1"
      then have "1 \<le> sqrt s" by simp
      then have "\<not> fless (binary64 (sqrt s)) (Fin 1)" by (rule binary64_ge_1)
      then show False using n s(1) Fin by (simp add: linalg_norm64_def)
    qed
    then show ?thesis using that Fin s by blast
  next
    case PInf
    then show ?thesis using n by (simp add: linalg_norm64_def)
  qed (use S in simp_all)
qed

lemma binary64_normal_at:
  assumes "0 < x" "\<lfloor>log 2 x\<rfloor> = e" "- 1022 \<le> e" "e \<le> 1022"
  shows "\<exists>y. binary64 x = Fin y \<and> 2 powi e \<le> y \<and> y \<le> 2 powi (e + 1)"
  using binary64_normal[OF assms(1)] assms(3,4) unfolding assms(2) by blast

lemma binary64_unit_interval:
  assumes "2 powi (- 53) \<le> x" "x \<le> 1"
  shows "\<exists>r. binary64 x = Fin r \<and> 2 powi (- 53) \<le> r \<and> r \<le> 1"
proof (cases "x = 1")
  case True
  then show ?thesis by (simp add: power_int_minus)
next
  case False
  have "0 < (2::real) powi (- 53)" by simp
  then have x: "0 < x" using assms(1) by linarith
  define e where "e = \<lfloor>log 2 x\<rfloor>"
  have "\<lfloor>log 2 ((2::real) powi (- 53))\<rfloor> \<le> e"
    unfolding e_def using assms(1) by (intro floor_log2_mono) simp_all
  then have lo: "- 53 \<le> e" by (simp only: floor_log2_powi)
  have x1: "x < 1" using False assms(2) by simp
  have hi: "e \<le> - 1"
  proof (rule ccontr)
    assume "\<not> e \<le> - 1"
    then have "0 \<le> e" by simp
    then have "(2::real) powi 0 \<le> 2 powi e" by (intro power_int_increasing) simp_all
    moreover have "2 powi e \<le> x" using floor_log2_bounds[OF x] by (simp add: e_def)
    ultimately show False using x1 by simp
  qed
  have "- 1022 \<le> e" "e \<le> 1022" using lo hi by linarith+
  from binary64_normal_at[OF x e_def[symmetric] this] obtain y
    where y: "binary64 x = Fin y" "2 powi e \<le> y" "y \<le> 2 powi (e + 1)"
    by blast
  have "(2::real) powi (- 53) \<le> 2 powi e" using lo by (intro power_int_increasing) simp_all
  moreover have "(2::real) powi (e + 1) \<le> 2 powi 0" using hi by (intro power_int_increasing) simp_all
  ultimately show ?thesis using y by (intro exI[of _ y]) simp
qed

lemma binary64_ge_2:
  assumes "2 \<le> x" "x \<le> 2 powi 54"
  shows "\<exists>l. binary64 x = Fin l \<and> 2 \<le> l"
proof -
  have x: "0 < x" using assms(1) by simp
  define e where "e = \<lfloor>log 2 x\<rfloor>"
  have "\<lfloor>log 2 ((2::real) powi 1)\<rfloor> \<le> e"
    unfolding e_def using assms(1) by (intro floor_log2_mono) simp_all
  then have lo: "1 \<le> e" by (simp only: floor_log2_powi)
  have "e \<le> \<lfloor>log 2 ((2::real) powi 54)\<rfloor>"
    unfolding e_def using assms(2) x by (intro floor_log2_mono) simp_all
  then have hi: "e \<le> 54" by (simp only: floor_log2_powi)
  have "- 1022 \<le> e" "e \<le> 1022" using lo hi by linarith+
  from binary64_normal_at[OF x e_def[symmetric] this] obtain y
    where y: "binary64 x = Fin y" "2 powi e \<le> y"
    by blast
  have "(2::real) powi 1 \<le> 2 powi e" using lo by (intro power_int_increasing) simp_all
  then show ?thesis using y by (intro exI[of _ y]) simp
qed

lemma conformal_factor_col64_bound:
  assumes "valid_col64 c"
  shows "\<exists>l. conformal_factor_col64 c = Fin l \<and> 2 \<le> l"
proof -
  from assms obtain s where s: "np_sum64 (mul64 c c) = Fin s" "0 \<le> s" "s < 1" "double_val s"
    by (rule valid_col64_sum)
  have "2 powi (- 53) \<le> 1 - s" using s(4,3) by (rule double_val_gap)
  moreover have "1 - s \<le> 1" using s(2) by simp
  ultimately obtain r where r: "binary64 (1 - s) = Fin r" "2 powi (- 53) \<le> r" "r \<le> 1"
    using binary64_unit_interval by blast
  have "0 < (2::real) powi (- 53)" by simp
  then have r0: "0 < r" using r(2) by linarith
  have "2 \<le> 2 / r" using r0 r(3) by (simp add: pos_le_divide_eq)
  moreover have "2 / r \<le> 2 powi 54"
  proof -
    have "2 / r \<le> 2 / 2 powi (- 53)" using r(2) r0 by (intro divide_left_mono) simp_all
    also have "\<dots> = 2 powi 1 * 2 powi 53" by (simp add: power_int_minus)
    also have "\<dots> = (2::real) powi 54" by simp
    finally show ?thesis .
  qed
  ultimately obtain l where "binary64 (2 / r) = Fin l" "2 \<le> l"
    using binary64_ge_2 by blast
  then show ?thesis using r r0 by (simp add: conformal_factor_col64_def s(1))
qed

lemma np_sum64_zeros: "np_sum64 (map (\<lambda>_. Fin 0) xs) = Fin 0"
proof -
  have "foldl (\<lambda>s x. rnd (s + x)) (Fin 0) (map (\<lambda>_. Fin 0) xs) = Fin 0"
    by (induction xs) simp_all
  then show ?thesis by (simp add: np_sum64_def)
qed

lemma conformal_factor_col64_zero:
  "conformal_factor_col64 (zeros_like_col c) = Fin 2"
proof -
  have "mul64 (zeros_like_col c) (zeros_like_col c) = map (\<lambda>_. Fin 0) c"
    by (simp add: mul64_def zeros_like_col_def list_eq_iff_nth_eq)
  then show ?thesis by (simp add: conformal_factor_col64_def np_sum64_zeros)
qed

subsection \<open>Roundings at the inputs of the examples\<close>

lemma r_sq: "binary64 (18014398241046529 / 18014398509481984) = Fin (67108863 / 67108864)"
  by (rule binary64_tie[where e = "- 1" and m = 9007199120523264]) simp_all

lemma r_s: "binary64 (67108863 / 67108864) = Fin (67108863 / 67108864)"
  by (rule binary64_nearest[where e = "- 1" and m = 9007199120523264]) simp_all

lemma r_2s: "binary64 (67108863 / 33554432) = Fin (67108863 / 33554432)"
  by (rule binary64_nearest[where e = 0 and m = 9007199120523264]) simp_all

lemma r_t1: "binary64 (100663295 / 33554432) = Fin (100663295 / 33554432)"
  by (rule binary64_nearest[where e = 1 and m = 6755399373946880]) simp_all

lemma r_A: "binary64 (268435453 / 67108864) = Fin (268435453 / 67108864)"
  by (rule binary64_nearest[where e = 1 and m = 9007199154077696]) simp_all

lemma r_B: "binary64 (1 / 67108864) = Fin (1 / 67108864)"
  by (rule binary64_nearest[where e = "- 26" and m = 4503599627370496]) simp_all

lemma r_aA: "binary64 (36028796347875331 / 9007199254740992) = Fin (9007199086968833 / 2251799813685248)"
  by (rule binary64_nearest[where e = 1 and m = 9007199086968833]) simp_all

lemma r_bB: "binary64 (134217727 / 9007199254740992) = Fin (134217727 / 9007199254740992)"
  by (rule binary64_nearest[where e = "- 27" and m = 9007199187632128]) simp_all

lemma r_N: "binary64 (36028796482093059 / 9007199254740992) = Fin (9007199120523265 / 2251799813685248)"
  by (rule binary64_nearest[where e = 1 and m = 9007199120523265]) simp_all

lemma r_nn: "binary64 (4503599493152769 / 4503599627370496) = Fin (4503599493152769 / 4503599627370496)"
  by (rule binary64_nearest[where e = "- 1" and m = 9007198986305538]) simp_all

lemma r_D: "binary64 (18014398241046529 / 4503599627370496) = Fin (67108863 / 16777216)"
  by (rule binary64_tie[where e = 1 and m = 9007199120523264]) simp_all

lemma r_res: "binary64 (9007199120523265 / 9007199120523264) = Fin (4503599627370497 / 4503599627370496)"
  by (rule binary64_nearest[where e = 0 and m = 4503599627370497]) simp_all

lemma r_x2: "binary64 (1 / 1152921504606846976) = Fin (1 / 1152921504606846976)"
  by (rule binary64_nearest[where e = "- 60" and m = 4503599627370496]) simp_all

lemma r_1s: "binary64 (1152921504606846975 / 1152921504606846976) = Fin 1"
  by (rule binary64_nearest[where e = "- 1" and m = 9007199254740992]) simp_all

lemmas binary64_facts = r_sq r_s r_2s r_t1 r_A r_B r_aA r_bB r_N r_nn r_D r_res r_x2 r_1s

lemma sum_sq_a:
  "np_sum64 (mul64 [Fin (134217727 / 134217728), Fin 0] [Fin (134217727 / 134217728), Fin 0])
   = Fin (67108863 / 67108864)"
  by (simp add: np_sum64_def mul64_def binary64_facts)

lemma mob64_eval:
  "mobius_addition_col64 [Fin (134217727 / 134217728), Fin 0] [Fin (134217727 / 134217728), Fin 0]
   = [Fin (4503599627370497 / 4503599627370496), Fin 0]"
  unfolding mobius_addition_col64_def sum_sq_a Let_def
  by (simp add: binary64_facts)

lemma cf64_eval:
  "conformal_factor_col64 [Fin (1 / 1073741824), Fin 0] = Fin 2"
  by (simp add: conformal_factor_col64_def np_sum64_def mul64_def binary64_facts)

lemma r_sqrt_a: "binary64 (sqrt (67108863 / 67108864)) = Fin (134217727 / 134217728)"
proof -
  define z :: real where "z = 67108863 / 67108864"
  define y :: real where "y = 134217727 / 134217728"
  have lo: "y - 1 / 2 ^ 54 < sqrt z"
    by (rule real_less_rsqrt) (simp add: y_def z_def power2_eq_square)
  have hi: "sqrt z < y"
    by (rule real_less_lsqrt) (simp_all add: y_def z_def power2_eq_square)
  have "1 / 2 \<le> sqrt z"
    by (rule real_le_rsqrt) (simp add: z_def power2_eq_square)
  moreover have "sqrt z < 1" by (simp add: z_def)
  moreover have "\<bar>sqrt z - y\<bar> < 1 / 2 ^ 54" using lo hi by simp
  ultimately have "binary64 (sqrt z) = Fin y"
    by (intro binary64_nearest[where e = "- 1" and m = 9007199187632128]) (simp_all add: y_def)
  then show ?thesis by (simp only: z_def y_def)
qed

lemma r_sqrt_x: "sqrt (1 / 1152921504606846976) = 1 / 1073741824"
  by (rule real_sqrt_unique) (simp_all add: power2_eq_square)

lemma r_x: "binary64 (1 / 1073741824) = Fin (1 / 1073741824)"
  by (rule binary64_nearest[where e = "- 30" and m = 4503599627370496]) simp_all

lemma valid64_a: "valid_col64 [Fin (134217727 / 134217728), Fin 0]"
  by (simp add: valid_col64_def linalg_norm64_def sum_sq_a r_sqrt_a)

lemma valid64_x: "valid_col64 [Fin (1 / 1073741824), Fin 0]"
  by (simp add: valid_col64_def linalg_norm64_def np_sum64_def mul64_def binary64_facts r_sqrt_x r_x)

lemma r_sq_out: "binary64 (20282409603651679431146506027009 / 20282409603651670423947251286016)
                 = Fin (2251799813685249 / 2251799813685248)"
  by (rule binary64_nearest[where e = 0 and m = 4503599627370498]) simp_all

lemma r_out: "binary64 (2251799813685249 / 2251799813685248) = Fin (2251799813685249 / 2251799813685248)"
  by (rule binary64_nearest[where e = 0 and m = 4503599627370498]) simp_all

lemma invalid64_out: "\<not> valid_col64 [Fin (4503599627370497 / 4503599627370496), Fin 0]"
proof -
  have s: "np_sum64 (mul64 [Fin (4503599627370497 / 4503599627370496), Fin 0]
                            [Fin (4503599627370497 / 4503599627370496), Fin 0])
           = Fin (2251799813685249 / 2251799813685248)"
    by (simp add: np_sum64_def mul64_def r_sq_out r_out)
  have "(1::real) \<le> sqrt (2251799813685249 / 2251799813685248)" by simp
  then have "\<not> fless (binary64 (sqrt (2251799813685249 / 2251799813685248))) (Fin 1)"
    by (rule binary64_ge_1)
  then show ?thesis by (simp add: valid_col64_def linalg_norm64_def s)
qed

subsection \<open>Moebius addition near the boundary, on binary64\<close>

text \<open>
  C4. The claim is that Moebius addition is closed in the open unit ball, as the
  docstring of the method says. On binary64 it is not. At \<open>a = b = [1 - 2\<^sup>-\<^sup>2\<^sup>7, 0]\<close>, a
  point of the ball (its norm is \<open>1 - 2\<^sup>-\<^sup>2\<^sup>7\<close>, exactly and as computed), the method
  returns \<open>[1 + 2\<^sup>-\<^sup>5\<^sup>2, 0]\<close>, which is outside the ball.
\<close>

theorem mobius_addition64_leaves_ball:
  "is_point 2 1 [[Fin (134217727 / 134217728), Fin 0]]
   \<and> is_point64 2 1 [[Fin (134217727 / 134217728), Fin 0]]
   \<and> mobius_addition64 [[Fin (134217727 / 134217728), Fin 0]] [[Fin (134217727 / 134217728), Fin 0]]
     = [[Fin (4503599627370497 / 4503599627370496), Fin 0]]
   \<and> 1 < (4503599627370497 / 4503599627370496 :: real)
   \<and> \<not> is_point64 2 1 [[Fin (4503599627370497 / 4503599627370496), Fin 0]]
   \<and> \<not> is_point 2 1 [[Fin (4503599627370497 / 4503599627370496), Fin 0]]"
proof -
  have 1: "is_point 2 1 [[Fin (134217727 / 134217728), Fin 0]]"
    by (simp add: is_point_def valid_col_def linalg_norm_def mul_def np_sum_def)
  have 2: "\<not> is_point 2 1 [[Fin (4503599627370497 / 4503599627370496), Fin 0]]"
    by (simp add: is_point_def valid_col_def linalg_norm_def mul_def np_sum_def)
  show ?thesis
    using 1 2 by (simp add: is_point64_def valid64_a invalid64_out mobius_addition64_def mob64_eval)
qed

subsection \<open>The conformal factor of a valid point, on binary64\<close>

text \<open>
  C9. The claim is that the conformal factor is 2 only where the column is zero. At
  the valid point \<open>x = [2\<^sup>-\<^sup>3\<^sup>0, 0]\<close> the squared norm \<open>2\<^sup>-\<^sup>6\<^sup>0\<close> is lost in \<open>1 - 2\<^sup>-\<^sup>6\<^sup>0\<close>,
  which rounds to 1, and the factor is exactly 2 although the column is not zero.
\<close>

theorem conformal_factor64_two_at_nonzero:
  "is_point64 2 1 [[Fin (1 / 1073741824), Fin 0]]
   \<and> conformal_factor64 [[Fin (1 / 1073741824), Fin 0]] = [Fin 2]
   \<and> [Fin (1 / 1073741824), Fin 0] \<noteq> zeros_like_col [Fin (1 / 1073741824), Fin 0]"
  by (simp add: is_point64_def valid64_x conformal_factor64_def cf64_eval zeros_like_col_def)

text \<open>
  C9, as amended. At every valid point the conformal factor of every column, as
  computed on binary64, is finite and at least 2, and it is 2 where the column is
  zero.
\<close>

theorem conformal_factor64_bound:
  assumes "is_point64 k n x" "j < n"
  shows "(\<exists>l. conformal_factor64 x ! j = Fin l \<and> 2 \<le> l)
         \<and> (x ! j = zeros_like_col (x ! j) \<longrightarrow> conformal_factor64 x ! j = Fin 2)"
proof -
  have l: "length x = n" and v: "valid_col64 (x ! j)"
    using assms by (simp_all add: is_point64_def list_all_length)
  have c: "conformal_factor64 x ! j = conformal_factor_col64 (x ! j)"
    using l assms(2) by (simp add: conformal_factor64_def)
  show ?thesis
    unfolding c using conformal_factor_col64_bound[OF v] conformal_factor_col64_zero[of "x ! j"]
    by metis
qed

lemma r_quarter: "binary64 (1 / 4) = Fin (1 / 4)"
  by (rule binary64_nearest[where e = "- 2" and m = 4503599627370496]) simp_all

lemma r_half: "binary64 (1 / 2) = Fin (1 / 2)"
  by (rule binary64_nearest[where e = "- 1" and m = 4503599627370496]) simp_all

lemma r_three_quarters: "binary64 (3 / 4) = Fin (3 / 4)"
  by (rule binary64_nearest[where e = "- 1" and m = 6755399441055744]) simp_all

lemma r_eight_thirds: "binary64 (8 / 3) = Fin (6004799503160661 / 2251799813685248)"
  by (rule binary64_nearest[where e = 1 and m = 6004799503160661]) simp_all

lemma r_sqrt_quarter: "sqrt (1 / 4) = 1 / 2"
  by (rule real_sqrt_unique) (simp_all add: power2_eq_square)

theorem conformal_factor64_bound_witness:
  "is_point64 2 2 [[Fin (1/2), Fin 0], [Fin 0, Fin 0]]
   \<and> conformal_factor64 [[Fin (1/2), Fin 0], [Fin 0, Fin 0]]
     = [Fin (6004799503160661 / 2251799813685248), Fin 2]
   \<and> (\<exists>l. conformal_factor64 [[Fin (1/2), Fin 0], [Fin 0, Fin 0]] ! 0 = Fin l \<and> 2 \<le> l)
   \<and> conformal_factor64 [[Fin (1/2), Fin 0], [Fin 0, Fin 0]] ! 1 = Fin 2"
proof -
  have h: "is_point64 2 2 [[Fin (1/2), Fin 0], [Fin 0, Fin 0]]"
    by (simp add: is_point64_def valid_col64_def linalg_norm64_def np_sum64_def mul64_def
        r_quarter r_half r_sqrt_quarter)
  have e: "conformal_factor64 [[Fin (1/2), Fin 0], [Fin 0, Fin 0]]
           = [Fin (6004799503160661 / 2251799813685248), Fin 2]"
    by (simp add: conformal_factor64_def conformal_factor_col64_def np_sum64_def mul64_def
        r_quarter r_three_quarters r_eight_thirds)
  have z: "[[Fin (1/2), Fin 0], [Fin 0, Fin 0]] ! 1 = zeros_like_col ([[Fin (1/2), Fin 0], [Fin 0, Fin 0]] ! 1)"
    by (simp add: zeros_like_col_def)
  show ?thesis
    using h e conformal_factor64_bound[OF h, of 0] conformal_factor64_bound[OF h, of 1] z
    by simp
qed

end
